theory Spec2Isabelle
  imports Complex_Main "HOL-Library.Log_Nat"
begin

section \<open>JavaScript numbers\<close>

text \<open>
  A JavaScript number is an IEEE-754 binary64 value: a finite double, one of the two
  infinities, or NaN. The finite doubles are the reals \<open>m * 2^e\<close> with \<open>\<bar>m\<bar> < 2^53\<close>
  and \<open>-1074 \<le> e \<le> 971\<close>. The two zeros are identified: no division by zero is
  reachable in \<^verbatim>\<open>app.js\<close> (every denominator is guarded or at least 1), and no other
  operation used there tells them apart.
\<close>

datatype jsnum = Fin real | PInf | NInf | NaN

text \<open>\<open>ilog2 x\<close> is the binary exponent of a positive real: \<open>2^(ilog2 x) \<le> x < 2^(ilog2 x + 1)\<close>.\<close>

definition ilog2 :: "real \<Rightarrow> int" where
  "ilog2 x = (if 1 \<le> x then bitlen \<lfloor>x\<rfloor> - 1 else - bitlen (\<lceil>1 / x\<rceil> - 1))"

text \<open>The exponent of the last place of the double nearest to \<open>x\<close>; subnormals share \<open>-1074\<close>.\<close>

definition expo :: "real \<Rightarrow> int" where
  "expo x = max (ilog2 \<bar>x\<bar> - 52) (- 1074)"

text \<open>Rounding to the nearest integer, ties to even.\<close>

definition rne :: "real \<Rightarrow> int" where
  "rne x =
     (let f = \<lfloor>x\<rfloor>; d = x - of_int f
      in if d < 1 / 2 then f
         else if 1 / 2 < d then f + 1
         else if even f then f else f + 1)"

text \<open>
  \<open>rnd\<close> is the rounding every arithmetic operation applies to its exact result:
  round to nearest, ties to even, overflow to an infinity.
\<close>

definition rnd :: "real \<Rightarrow> jsnum" where
  "rnd x =
     (if x = 0 then Fin 0
      else let e = expo x; y = of_int (rne (x / 2 powi e)) * 2 powi e
           in if 2 powi 1024 \<le> \<bar>y\<bar> then (if 0 < x then PInf else NInf) else Fin y)"

fun fadd :: "jsnum \<Rightarrow> jsnum \<Rightarrow> jsnum" where
  "fadd NaN _ = NaN"
| "fadd _ NaN = NaN"
| "fadd PInf NInf = NaN"
| "fadd NInf PInf = NaN"
| "fadd PInf _ = PInf"
| "fadd _ PInf = PInf"
| "fadd NInf _ = NInf"
| "fadd _ NInf = NInf"
| "fadd (Fin x) (Fin y) = rnd (x + y)"

fun fneg :: "jsnum \<Rightarrow> jsnum" where
  "fneg (Fin x) = Fin (- x)"
| "fneg PInf = NInf"
| "fneg NInf = PInf"
| "fneg NaN = NaN"

definition fsub :: "jsnum \<Rightarrow> jsnum \<Rightarrow> jsnum" where
  "fsub a b = fadd a (fneg b)"

fun fmul :: "jsnum \<Rightarrow> jsnum \<Rightarrow> jsnum" where
  "fmul NaN _ = NaN"
| "fmul _ NaN = NaN"
| "fmul (Fin x) (Fin y) = rnd (x * y)"
| "fmul (Fin x) PInf = (if x = 0 then NaN else if 0 < x then PInf else NInf)"
| "fmul (Fin x) NInf = (if x = 0 then NaN else if 0 < x then NInf else PInf)"
| "fmul PInf (Fin y) = (if y = 0 then NaN else if 0 < y then PInf else NInf)"
| "fmul NInf (Fin y) = (if y = 0 then NaN else if 0 < y then NInf else PInf)"
| "fmul PInf PInf = PInf"
| "fmul NInf NInf = PInf"
| "fmul PInf NInf = NInf"
| "fmul NInf PInf = NInf"

text \<open>
  A finite number divided by zero is an infinity whose sign also depends on the sign of
  the zero; with the zeros identified it is taken as for \<open>+0\<close>. No call in the program
  divides by zero.
\<close>

fun fdiv :: "jsnum \<Rightarrow> jsnum \<Rightarrow> jsnum" where
  "fdiv NaN _ = NaN"
| "fdiv _ NaN = NaN"
| "fdiv (Fin x) (Fin y) =
     (if y = 0 then (if x = 0 then NaN else if 0 < x then PInf else NInf)
      else rnd (x / y))"
| "fdiv (Fin x) PInf = Fin 0"
| "fdiv (Fin x) NInf = Fin 0"
| "fdiv PInf (Fin y) = (if 0 \<le> y then PInf else NInf)"
| "fdiv NInf (Fin y) = (if 0 \<le> y then NInf else PInf)"
| "fdiv PInf _ = NaN"
| "fdiv NInf _ = NaN"

text \<open>The comparisons \<^verbatim>\<open><=\<close>, \<^verbatim>\<open><\<close> and \<^verbatim>\<open>===\<close>: false as soon as one side is NaN.\<close>

fun fle :: "jsnum \<Rightarrow> jsnum \<Rightarrow> bool" where
  "fle NaN _ = False"
| "fle _ NaN = False"
| "fle NInf _ = True"
| "fle _ PInf = True"
| "fle (Fin x) (Fin y) = (x \<le> y)"
| "fle _ _ = False"

fun flt :: "jsnum \<Rightarrow> jsnum \<Rightarrow> bool" where
  "flt NaN _ = False"
| "flt _ NaN = False"
| "flt PInf _ = False"
| "flt _ NInf = False"
| "flt (Fin x) (Fin y) = (x < y)"
| "flt _ _ = True"

definition feq :: "jsnum \<Rightarrow> jsnum \<Rightarrow> bool" where
  "feq a b = (a \<noteq> NaN \<and> a = b)"

text \<open>\<^verbatim>\<open>Math.max\<close> and \<^verbatim>\<open>Math.min\<close> of two numbers: NaN if either is.\<close>

definition math_max :: "jsnum \<Rightarrow> jsnum \<Rightarrow> jsnum" where
  "math_max a b = (if a = NaN \<or> b = NaN then NaN else if fle a b then b else a)"

definition math_min :: "jsnum \<Rightarrow> jsnum \<Rightarrow> jsnum" where
  "math_min a b = (if a = NaN \<or> b = NaN then NaN else if fle a b then a else b)"

text \<open>
  \<^verbatim>\<open>Math.round\<close> is \<open>\<lfloor>x + 1/2\<rfloor>\<close>, computed exactly; \<^verbatim>\<open>Math.floor\<close> and
  \<^verbatim>\<open>Math.ceil\<close> likewise. The result of each is a double when the argument is.
\<close>

fun math_round :: "jsnum \<Rightarrow> jsnum" where
  "math_round (Fin x) = Fin (of_int \<lfloor>x + 1 / 2\<rfloor>)"
| "math_round v = v"

fun math_floor :: "jsnum \<Rightarrow> jsnum" where
  "math_floor (Fin x) = Fin (of_int \<lfloor>x\<rfloor>)"
| "math_floor v = v"

fun math_ceil :: "jsnum \<Rightarrow> jsnum" where
  "math_ceil (Fin x) = Fin (of_int \<lceil>x\<rceil>)"
| "math_ceil v = v"

text \<open>\<^verbatim>\<open>Number.isFinite\<close> on a number.\<close>

fun number_isFinite :: "jsnum \<Rightarrow> bool" where
  "number_isFinite (Fin x) = True"
| "number_isFinite v = False"

text \<open>A decimal literal of the source denotes the double nearest to it.\<close>

definition lit :: "real \<Rightarrow> jsnum" where
  "lit x = rnd x"

text \<open>\<^verbatim>\<open>Number.MAX_VALUE\<close>, the largest finite double.\<close>

definition MAX_VALUE :: real where
  "MAX_VALUE = 2 ^ 1024 - 2 ^ 971"

section \<open>Values, rows and configuration\<close>

text \<open>
  The values that reach the numeric code: \<^verbatim>\<open>undefined\<close>, \<^verbatim>\<open>null\<close> and numbers.
  \<open>toNumber\<close> is the conversion the arithmetic operators and \<^verbatim>\<open>Math.max\<close> apply.
\<close>

datatype jsval = Undef | Null | Num jsnum

fun toNumber :: "jsval \<Rightarrow> jsnum" where
  "toNumber Undef = NaN"
| "toNumber Null = Fin 0"
| "toNumber (Num x) = x"

text \<open>\<^verbatim>\<open>isFiniteNumber(x)\<close>: \<^verbatim>\<open>typeof x === 'number' && Number.isFinite(x)\<close>.\<close>

fun isFiniteNumber :: "jsval \<Rightarrow> bool" where
  "isFiniteNumber (Num x) = number_isFinite x"
| "isFiniteNumber v = False"

text \<open>
  A text the program trims, changes the case of or matches is the list of its UTF-16 code
  units; \<open>utf16\<close> gives the code units of an ASCII literal. Metric names and colors, which
  the program only compares and passes on, stay literals.
\<close>

type_synonym jsstring = "nat list"

definition utf16 :: "string \<Rightarrow> jsstring" where
  "utf16 s = map of_char s"

text \<open>
  \<^verbatim>\<open>String.prototype.trim\<close> removes white space and line terminators from both ends: TAB,
  LF, VT, FF, CR, SPACE, NO-BREAK SPACE, U+1680, U+2000 to U+200A, U+2028, U+2029, U+202F,
  U+205F, U+3000 and U+FEFF.
\<close>

definition is_space :: "nat \<Rightarrow> bool" where
  "is_space c =
     (c \<in> set [0x09, 0x0A, 0x0B, 0x0C, 0x0D, 0x20, 0xA0, 0x1680, 0x2028, 0x2029, 0x202F,
               0x205F, 0x3000, 0xFEFF]
      \<or> (0x2000 \<le> c \<and> c \<le> 0x200A))"

definition trim :: "jsstring \<Rightarrow> jsstring" where
  "trim s = rev (dropWhile is_space (rev (dropWhile is_space s)))"

text \<open>
  \<^verbatim>\<open>String.prototype.toUpperCase\<close> maps every code point by the case mapping of Unicode,
  whatever stands around it. On an ASCII code unit that is \<open>upper_ascii\<close>. The mapping of
  the other code points is a table of the engine, not of the repository: it is the
  parameter \<open>up\<close>, the engine's \<^verbatim>\<open>toUpperCase\<close> on a text without ASCII code units, and it
  is applied to each maximal run of such code units (a run never cuts a surrogate pair).
\<close>

definition upper_ascii :: "nat \<Rightarrow> nat" where
  "upper_ascii c = (if 0x61 \<le> c \<and> c \<le> 0x7A then c - 0x20 else c)"

function toUpperCase :: "(jsstring \<Rightarrow> jsstring) \<Rightarrow> jsstring \<Rightarrow> jsstring" where
  "toUpperCase up [] = []"
| "toUpperCase up (c # cs) =
     (if c < 0x80 then upper_ascii c # toUpperCase up cs
      else up (c # takeWhile (\<lambda>d. 0x80 \<le> d) cs) @ toUpperCase up (dropWhile (\<lambda>d. 0x80 \<le> d) cs))"
  by pat_completeness auto
termination
  by (relation "measure (\<lambda>(up, s). length s)") (auto simp: length_dropWhile_le less_Suc_eq_le)

text \<open>
  One row of the table. The CSV parser hands every cell over as text (or leaves the
  property out), and the program reads a numeric cell only through \<^verbatim>\<open>Number(cell)\<close>;
  a numeric field of the record holds that number: NaN for a cell that is absent or is
  not the text of a number (\<^verbatim>\<open>Number\<close> of blank text is 0). The two country fields
  keep their text, \<open>None\<close> when the column is missing. The column \<^verbatim>\<open>n\<close> is the field
  \<open>row_n\<close>.
\<close>

record row =
  src_country :: "jsstring option"
  dst_country :: "jsstring option"
  row_n :: jsnum
  mean_ms :: jsnum
  min_ms :: jsnum
  max_ms :: jsnum
  p50_ms :: jsnum
  p90_ms :: jsnum
  p95_ms :: jsnum
  average_ms :: jsnum

definition DEFAULT_METRIC :: string where
  "DEFAULT_METRIC = ''average_ms''"

definition METRIC_FIELDS :: "string list" where
  "METRIC_FIELDS =
     [DEFAULT_METRIC, ''mean_ms'', ''p50_ms'', ''p90_ms'', ''p95_ms'', ''min_ms'', ''max_ms'']"

text \<open>
  \<^verbatim>\<open>Number(row[metric])\<close>. The metric names in use are those of \<open>METRIC_FIELDS\<close>; any
  other name is read as a column without a number.
\<close>

definition row_metric :: "row \<Rightarrow> string \<Rightarrow> jsnum" where
  "row_metric r metric =
     (if metric = ''average_ms'' then average_ms r
      else if metric = ''mean_ms'' then mean_ms r
      else if metric = ''p50_ms'' then p50_ms r
      else if metric = ''p90_ms'' then p90_ms r
      else if metric = ''p95_ms'' then p95_ms r
      else if metric = ''min_ms'' then min_ms r
      else if metric = ''max_ms'' then max_ms r
      else if metric = ''n'' then row_n r
      else NaN)"

record scaleCfg =
  auto :: bool
  minMs :: jsnum
  maxMs :: jsnum
  pLow :: jsnum
  pHigh :: jsnum
  transform :: string
  missingColor :: string

text \<open>The configuration the program starts with.\<close>

definition scaleCfg0 :: scaleCfg where
  "scaleCfg0 =
     \<lparr>auto = True, minMs = Fin 20, maxMs = Fin 300, pLow = Fin 5, pHigh = Fin 95,
      transform = ''linear'', missingColor = ''#dddddd''\<rparr>"

definition selectedSourceColor :: string where
  "selectedSourceColor = ''#2f6bff''"

definition selectedSourceBorderColor :: string where
  "selectedSourceBorderColor = ''#163dba''"

text \<open>
  \<^verbatim>\<open>parseNum(v)\<close>, on the number \<^verbatim>\<open>Number(v)\<close>: the number when it is finite,
  \<^verbatim>\<open>null\<close> (\<open>None\<close>) otherwise.
\<close>

definition parseNum :: "jsnum \<Rightarrow> jsnum option" where
  "parseNum nv = (if number_isFinite nv then Some nv else None)"

section \<open>The average of a row\<close>

fun firstNonNegative :: "jsnum option list \<Rightarrow> jsnum option" where
  "firstNonNegative [] = None"
| "firstNonNegative (v # vs) =
     (case v of
        None \<Rightarrow> firstNonNegative vs
      | Some x \<Rightarrow> if fle (Fin 0) x then Some x else firstNonNegative vs)"

text \<open>
  The value of the local variable \<^verbatim>\<open>invalidFrac\<close> of \<^verbatim>\<open>estimateInvalidCount\<close> after
  its three conditional updates; \<^verbatim>\<open>p !== null && p < 0\<close> is \<open>negative p\<close>.
\<close>

definition negative :: "jsnum option \<Rightarrow> bool" where
  "negative p = (case p of None \<Rightarrow> False | Some x \<Rightarrow> flt x (Fin 0))"

definition invalidFrac :: "row \<Rightarrow> jsnum \<Rightarrow> jsnum" where
  "invalidFrac r n =
     (let p50 = parseNum (p50_ms r);
          p90 = parseNum (p90_ms r);
          p95 = parseNum (p95_ms r);
          f0 = math_max (fdiv (Fin 1) (math_max (Fin 1) n)) (lit (1 / 100));
          f1 = (if negative p50 then math_max f0 (lit (70 / 100)) else f0);
          f2 = (if negative p90 then math_max f1 (lit (925 / 1000)) else f1);
          f3 = (if negative p95 then math_max f2 (lit (975 / 1000)) else f2)
      in f3)"

definition estimateInvalidCount :: "row \<Rightarrow> jsnum \<Rightarrow> jsnum" where
  "estimateInvalidCount r n =
     (let mn = parseNum (min_ms r);
          mx = parseNum (max_ms r)
      in if mx = Some (Fin (- 1)) then n
         else if mn \<noteq> Some (Fin (- 1)) then Fin 0
         else let invalidCount = math_round (fmul (invalidFrac r n) n)
              in math_min (fsub n (Fin 1)) (math_max (Fin 1) invalidCount))"

definition computeAverageMs :: "row \<Rightarrow> jsnum" where
  "computeAverageMs r =
     (case parseNum (average_ms r) of
        Some existing \<Rightarrow> existing
      | None \<Rightarrow>
          let n = (case parseNum (row_n r) of Some nRaw \<Rightarrow> math_round nRaw | None \<Rightarrow> Fin 0);
              mean = parseNum (mean_ms r);
              mn = parseNum (min_ms r);
              mx = parseNum (max_ms r)
          in case mean of
               None \<Rightarrow> Fin (- 1)
             | Some m \<Rightarrow>
                 if fle n (Fin 0) then Fin (- 1)
                 else if mx = Some (Fin (- 1)) then Fin (- 1)
                 else if mn \<noteq> Some (Fin (- 1)) \<and> fle (Fin 0) m then m
                 else let invalidCount = estimateInvalidCount r n
                      in if fle n invalidCount then Fin (- 1)
                         else let corrected = fdiv (fadd (fmul m n) invalidCount) (fsub n invalidCount)
                              in if number_isFinite corrected \<and> fle (Fin 0) corrected then corrected
                                 else (case firstNonNegative
                                              [parseNum (p50_ms r), parseNum (p90_ms r),
                                               parseNum (p95_ms r), parseNum (max_ms r)] of
                                         None \<Rightarrow> Fin (- 1)
                                       | Some fallback \<Rightarrow> fallback))"

definition enrichAverageMetric :: "row list \<Rightarrow> row list" where
  "enrichAverageMetric rows = map (\<lambda>r. r\<lparr>average_ms := computeAverageMs r\<rparr>) rows"

section \<open>Metric values and the global scale\<close>

text \<open>
  \<^verbatim>\<open>buildMetricValues\<close>: for each metric of \<open>METRIC_FIELDS\<close>, the values of all rows
  that parse to a finite number \<open>\<ge> 0\<close>, in row order, then sorted with the comparator
  \<^verbatim>\<open>(a, b) => a - b\<close>. On finite doubles the sign of \<^verbatim>\<open>a - b\<close> is the sign of the exact
  difference, so the sort is the ascending one.
\<close>

fun fin_val :: "jsnum \<Rightarrow> real" where
  "fin_val (Fin x) = x"
| "fin_val v = 0"

definition validValue :: "string \<Rightarrow> row \<Rightarrow> jsnum option" where
  "validValue metric r =
     (case parseNum (row_metric r metric) of
        None \<Rightarrow> None
      | Some v \<Rightarrow> if fle (Fin 0) v then Some v else None)"

definition buildMetricValues :: "row list \<Rightarrow> (string \<rightharpoonup> jsnum list)" where
  "buildMetricValues rows =
     map_of (map (\<lambda>metric. (metric, sort_key fin_val (List.map_filter (validValue metric) rows)))
               METRIC_FIELDS)"

text \<open>
  \<^verbatim>\<open>vals[k]\<close> for a number \<open>k\<close>: the element when \<open>k\<close> is an integer index inside the
  array, \<^verbatim>\<open>undefined\<close> otherwise.
\<close>

definition index_js :: "jsnum list \<Rightarrow> jsnum \<Rightarrow> jsval" where
  "index_js vals k =
     (case k of
        Fin x \<Rightarrow>
          if x = of_int \<lfloor>x\<rfloor> \<and> 0 \<le> x \<and> \<lfloor>x\<rfloor> < int (length vals)
          then Num (vals ! nat \<lfloor>x\<rfloor>) else Undef
      | _ \<Rightarrow> Undef)"

text \<open>The closure \<^verbatim>\<open>q\<close> of \<^verbatim>\<open>computeGlobalScale\<close>, with the array it closes over.\<close>

definition q :: "jsnum list \<Rightarrow> jsnum \<Rightarrow> jsval" where
  "q vals p =
     (let idx = fmul (fdiv p (Fin 100)) (fsub (Fin (real (length vals))) (Fin 1));
          lo = math_floor idx;
          hi = math_ceil idx
      in if feq lo hi then index_js vals lo
         else let t = fsub idx lo
              in Num (fadd (fmul (toNumber (index_js vals lo)) (fsub (Fin 1) t))
                           (fmul (toNumber (index_js vals hi)) t)))"

record scale =
  range_min :: jsval
  range_max :: jsval

definition computeGlobalScale :: "scaleCfg \<Rightarrow> (string \<rightharpoonup> jsnum list) \<Rightarrow> string \<Rightarrow> scale" where
  "computeGlobalScale cfg metricValues metric =
     (let vals = (case metricValues metric of None \<Rightarrow> [] | Some vs \<Rightarrow> vs)
      in if vals = [] then \<lparr>range_min = Num (Fin 0), range_max = Num (Fin 1)\<rparr>
         else let mn = q vals (pLow cfg);
                  mx = q vals (pHigh cfg)
              in \<lparr>range_min = mn,
                  range_max = Num (math_max (toNumber mx)
                                     (fadd (toNumber mn) (lit (1 / 1000000))))\<rparr>)"

record renderState =
  src :: jsstring
  metric :: string
  scaleMin :: jsval
  scaleMax :: jsval

text \<open>
  \<^verbatim>\<open>buildRenderState\<close>; the current source and metric come from the two dropdowns and
  are arguments here.
\<close>

definition buildRenderState ::
  "scaleCfg \<Rightarrow> (string \<rightharpoonup> jsnum list) \<Rightarrow> jsstring \<Rightarrow> string \<Rightarrow> renderState" where
  "buildRenderState cfg metricValues currentSrc currentMetric =
     (let sc = (if auto cfg then computeGlobalScale cfg metricValues currentMetric
                else \<lparr>range_min = Num (minMs cfg), range_max = Num (maxMs cfg)\<rparr>)
      in \<lparr>src = currentSrc, metric = currentMetric,
          scaleMin = range_min sc, scaleMax = range_max sc\<rparr>)"

section \<open>The source index\<close>

text \<open>\<^verbatim>\<open>(c || '').trim().toUpperCase()\<close> for a country cell.\<close>

definition country_key :: "(jsstring \<Rightarrow> jsstring) \<Rightarrow> jsstring option \<Rightarrow> jsstring" where
  "country_key up c = toUpperCase up (trim (case c of None \<Rightarrow> [] | Some s \<Rightarrow> s))"

record index =
  bySrc :: "jsstring \<rightharpoonup> (jsstring \<rightharpoonup> row)"
  allSrcCountrySet :: "jsstring set"

definition index_row :: "(jsstring \<Rightarrow> jsstring) \<Rightarrow> row \<Rightarrow> index \<Rightarrow> index" where
  "index_row up r ix =
     (let s = country_key up (src_country r);
          d = country_key up (dst_country r)
      in if s = [] \<or> d = [] then ix
         else \<lparr>bySrc = (bySrc ix)(s \<mapsto> (case bySrc ix s of None \<Rightarrow> Map.empty | Some m \<Rightarrow> m)(d \<mapsto> r)),
               allSrcCountrySet = insert s (allSrcCountrySet ix)\<rparr>)"

definition buildIndex :: "(jsstring \<Rightarrow> jsstring) \<Rightarrow> row list \<Rightarrow> index" where
  "buildIndex up rows = fold (index_row up) rows \<lparr>bySrc = Map.empty, allSrcCountrySet = {}\<rparr>"

section \<open>Colors\<close>

definition clamp01 :: "jsnum \<Rightarrow> jsnum" where
  "clamp01 t = math_max (Fin 0) (math_min (Fin 1) t)"

definition lerp :: "jsnum \<Rightarrow> jsnum \<Rightarrow> jsnum \<Rightarrow> jsnum" where
  "lerp a b t = fadd a (fmul (fsub b a) t)"

datatype error = TypeError

type_synonym rgb = "jsnum \<times> jsnum \<times> jsnum"

definition hexDigit :: "nat \<Rightarrow> nat option" where
  "hexDigit k =
     (if 48 \<le> k \<and> k \<le> 57 then Some (k - 48)
      else if 97 \<le> k \<and> k \<le> 102 then Some (k - 87)
      else if 65 \<le> k \<and> k \<le> 70 then Some (k - 55)
      else None)"

text \<open>
  \<^verbatim>\<open>hexToRgb\<close>: the trimmed text must be an optional \<^verbatim>\<open>#\<close> and exactly six hexadecimal
  digits, in either case; \<open>None\<close> is \<^verbatim>\<open>null\<close>.
\<close>

definition hexToRgb :: "jsstring \<Rightarrow> rgb option" where
  "hexToRgb hex =
     (let s = trim hex;
          body = (case s of [] \<Rightarrow> [] | c # cs \<Rightarrow> if c = 0x23 then cs else s)
      in case map hexDigit body of
           [Some r1, Some r2, Some g1, Some g2, Some b1, Some b2] \<Rightarrow>
             Some (Fin (real (16 * r1 + r2)), Fin (real (16 * g1 + g2)), Fin (real (16 * b1 + b2)))
         | _ \<Rightarrow> None)"

definition hexChar :: "nat \<Rightarrow> char" where
  "hexChar d = ''0123456789abcdef'' ! d"

fun hexString :: "nat \<Rightarrow> string" where
  "hexString k = (if k < 16 then [hexChar k] else hexString (k div 16) @ [hexChar (k mod 16)])"

declare hexString.simps [simp del]

text \<open>
  \<^verbatim>\<open>n.toString(16)\<close> for the numbers \<^verbatim>\<open>Math.round\<close> returns: an integer, an infinity
  or NaN.
\<close>

fun toString16 :: "jsnum \<Rightarrow> string" where
  "toString16 (Fin x) = (if x < 0 then ''-'' else []) @ hexString (nat \<bar>\<lfloor>x\<rfloor>\<bar>)"
| "toString16 PInf = ''Infinity''"
| "toString16 NInf = ''-Infinity''"
| "toString16 NaN = ''NaN''"

definition toHex :: "jsnum \<Rightarrow> string" where
  "toHex k = (let s = toString16 k in replicate (2 - length s) CHR ''0'' @ s)"

definition rgbToHex :: "rgb \<Rightarrow> string" where
  "rgbToHex c = (case c of (r, g, b) \<Rightarrow> ''#'' @ toHex r @ toHex g @ toHex b)"

text \<open>The color of the ramp from green to red at the position \<open>t\<close>.\<close>

definition rampColor :: "jsnum \<Rightarrow> error + string" where
  "rampColor t =
     (case (hexToRgb (utf16 ''#00b050''), hexToRgb (utf16 ''#ff0000'')) of
        (Some (gr, gg, gb), Some (rr, rg, rb)) \<Rightarrow>
          Inr (rgbToHex (math_round (lerp gr rr t), math_round (lerp gg rg t),
                         math_round (lerp gb rb t)))
      | _ \<Rightarrow> Inl TypeError)"

text \<open>
  The normalised position \<open>t\<close> that \<^verbatim>\<open>valueToColor\<close> computes for a number \<open>v\<close>:
  \<open>normalise\<close> is \<^verbatim>\<open>clamp01((vv - a) / (b - a || 1))\<close>, and \<open>position\<close> applies it after the
  optional logarithm. The language leaves the precision of \<^verbatim>\<open>Math.log10\<close> to the engine:
  the engine's function is the parameter \<open>log10\<close>.
\<close>

definition normalise :: "jsnum \<Rightarrow> jsnum \<Rightarrow> jsnum \<Rightarrow> jsnum" where
  "normalise vv a b =
     (let d = fsub b a
      in clamp01 (fdiv (fsub vv a) (if d = Fin 0 \<or> d = NaN then Fin 1 else d)))"

definition position ::
  "(jsnum \<Rightarrow> jsnum) \<Rightarrow> scaleCfg \<Rightarrow> jsnum \<Rightarrow> jsval \<Rightarrow> jsval \<Rightarrow> jsnum" where
  "position log10 cfg v minV maxV =
     (if transform cfg = ''log''
      then let eps = lit (1 / 1000000)
           in normalise (log10 (math_max eps v))
                        (log10 (math_max eps (toNumber minV)))
                        (log10 (math_max eps (toNumber maxV)))
      else normalise v (toNumber minV) (toNumber maxV))"

definition valueToColor ::
  "(jsnum \<Rightarrow> jsnum) \<Rightarrow> scaleCfg \<Rightarrow> jsval \<Rightarrow> jsval \<Rightarrow> jsval \<Rightarrow> error + string" where
  "valueToColor log10 cfg v minV maxV =
     (if \<not> isFiniteNumber v then Inr (missingColor cfg)
      else rampColor (position log10 cfg (toNumber v) minV maxV))"

record style =
  weight :: jsnum
  opacity :: jsnum
  color :: string
  fillOpacity :: jsnum
  fillColor :: string

text \<open>
  \<^verbatim>\<open>styleForFeature\<close>, for a feature whose \<^verbatim>\<open>getFeatureIso2\<close> is \<open>iso2\<close>.
  \<open>featureValue\<close> is its local \<^verbatim>\<open>v\<close>: the metric of the row from the selected source to
  the feature, \<^verbatim>\<open>null\<close> when there is no such row or no finite number in it.
\<close>

definition featureValue ::
  "renderState \<Rightarrow> (jsstring \<rightharpoonup> (jsstring \<rightharpoonup> row)) \<Rightarrow> jsstring \<Rightarrow> jsnum option" where
  "featureValue rs by_src iso2 =
     (case (case by_src (src rs) of None \<Rightarrow> None | Some srcMap \<Rightarrow> srcMap iso2) of
        None \<Rightarrow> None
      | Some r \<Rightarrow> parseNum (row_metric r (metric rs)))"

definition styleForFeature ::
  "(jsnum \<Rightarrow> jsnum) \<Rightarrow> scaleCfg \<Rightarrow> renderState \<Rightarrow> (jsstring \<rightharpoonup> (jsstring \<rightharpoonup> row)) \<Rightarrow> jsstring
     \<Rightarrow> error + style" where
  "styleForFeature log10 cfg rs by_src iso2 =
     (let isSelectedSource = (src rs \<noteq> [] \<and> iso2 = src rs);
          fill = (if isSelectedSource then Inr selectedSourceColor
                  else case featureValue rs by_src iso2 of
                         None \<Rightarrow> Inr (missingColor cfg)
                       | Some x \<Rightarrow>
                           if fle (Fin 0) x
                           then valueToColor log10 cfg (Num x) (scaleMin rs) (scaleMax rs)
                           else Inr (missingColor cfg))
      in case fill of
           Inl e \<Rightarrow> Inl e
         | Inr f \<Rightarrow>
             Inr \<lparr>weight = (if isSelectedSource then Fin 2 else Fin 1),
                  opacity = (if isSelectedSource then Fin 1 else lit (9 / 10)),
                  color = (if isSelectedSource then selectedSourceBorderColor else ''#666''),
                  fillOpacity = (if isSelectedSource then lit (95 / 100) else lit (85 / 100)),
                  fillColor = f\<rparr>)"

section \<open>Coalescing refreshes\<close>

text \<open>
  \<^verbatim>\<open>refreshLayer\<close> and its closure \<^verbatim>\<open>runRefresh\<close> communicate through the two flags
  and the animation-frame queue of the browser. The state holds the flags, the queued
  callbacks, whether a pass (the \<^verbatim>\<open>try\<close> block of \<^verbatim>\<open>runRefresh\<close>) is under way, and the
  number of passes begun so far. \<open>Outer\<close> is the arrow function that requests
  \<^verbatim>\<open>runRefresh\<close> for the following frame.
\<close>

datatype callback = Outer | RunRefresh

record sched =
  geoLayer :: bool
  refreshScheduled :: bool
  refreshPending :: bool
  mapLoading :: bool
  frameQueue :: "callback list"
  running :: bool
  passes :: nat

text \<open>
  The events: a call of \<^verbatim>\<open>refreshLayer\<close> (a refresh signal), an animation frame, the
  normal end of a pass, and a pass that throws. Execution is single-threaded: a frame
  callback never starts while a pass is under way, so \<open>Frame\<close> does nothing then; a
  signal can arrive during a pass, from code the pass calls.
\<close>

datatype event = Signal | Frame | PassEnd | PassThrow

fun step :: "sched \<Rightarrow> event \<Rightarrow> sched" where
  "step s Signal =
     (if \<not> geoLayer s then s
      else if refreshScheduled s then s\<lparr>refreshPending := True\<rparr>
      else s\<lparr>refreshPending := True, refreshScheduled := True, mapLoading := True,
             frameQueue := frameQueue s @ [Outer]\<rparr>)"
| "step s Frame =
     (if running s then s
      else case frameQueue s of
             [] \<Rightarrow> s
           | Outer # cbs \<Rightarrow> s\<lparr>frameQueue := cbs @ [RunRefresh]\<rparr>
           | RunRefresh # cbs \<Rightarrow>
               s\<lparr>frameQueue := cbs, refreshPending := False, running := True,
                  passes := Suc (passes s)\<rparr>)"
| "step s PassEnd =
     (if \<not> running s then s
      else if refreshPending s then s\<lparr>running := False, frameQueue := frameQueue s @ [RunRefresh]\<rparr>
      else s\<lparr>running := False, refreshScheduled := False, mapLoading := False\<rparr>)"
| "step s PassThrow =
     (if \<not> running s then s
      else s\<lparr>running := False, refreshScheduled := False, mapLoading := False\<rparr>)"

definition run :: "sched \<Rightarrow> event list \<Rightarrow> sched" where
  "run s evs = foldl step s evs"

text \<open>The scheduler at rest, with the layer loaded and \<open>k\<close> passes done.\<close>

definition idle :: "nat \<Rightarrow> sched" where
  "idle k =
     \<lparr>geoLayer = True, refreshScheduled = False, refreshPending = False, mapLoading = False,
      frameQueue = [], running = False, passes = k\<rparr>"

section \<open>Example data\<close>

text \<open>A row all of whose cells are absent, and the row of the worked example of the estimator.\<close>

definition blank_row :: row where
  "blank_row =
     \<lparr>src_country = None, dst_country = None, row_n = NaN, mean_ms = NaN, min_ms = NaN,
      max_ms = NaN, p50_ms = NaN, p90_ms = NaN, p95_ms = NaN, average_ms = NaN\<rparr>"

definition example_row :: row where
  "example_row =
     \<lparr>src_country = Some (utf16 ''DE''), dst_country = Some (utf16 ''FR''), row_n = Fin 100, mean_ms = Fin 50,
      min_ms = Fin (- 1), max_ms = Fin 80, p50_ms = Fin (- 1), p90_ms = Fin 10,
      p95_ms = Fin 20, average_ms = NaN\<rparr>"

text \<open>The range the data model gives \<^verbatim>\<open>average_ms\<close>: the sentinel or a finite number \<open>\<ge> 0\<close>.\<close>

definition valid_average :: "jsnum \<Rightarrow> bool" where
  "valid_average a = (a = Fin (- 1) \<or> (number_isFinite a \<and> fle (Fin 0) a))"

text \<open>
  The path condition of the estimation branch of \<^verbatim>\<open>computeAverageMs\<close>: no finite
  \<^verbatim>\<open>average_ms\<close>, a rounded sample count \<open>n > 0\<close>, a mean, \<^verbatim>\<open>max_ms\<close> other than \<open>-1\<close>,
  and not both \<^verbatim>\<open>min_ms !== -1\<close> and \<^verbatim>\<open>mean >= 0\<close>.
\<close>

definition reaches_estimation :: "row \<Rightarrow> jsnum \<Rightarrow> bool" where
  "reaches_estimation r n =
     (parseNum (average_ms r) = None
      \<and> n = (case parseNum (row_n r) of Some nRaw \<Rightarrow> math_round nRaw | None \<Rightarrow> Fin 0)
      \<and> \<not> fle n (Fin 0)
      \<and> parseNum (max_ms r) \<noteq> Some (Fin (- 1))
      \<and> (case parseNum (mean_ms r) of
            None \<Rightarrow> False
          | Some m \<Rightarrow> \<not> (parseNum (min_ms r) \<noteq> Some (Fin (- 1)) \<and> fle (Fin 0) m)))"

text \<open>An ascending sequence of finite numbers, as \<^verbatim>\<open>buildMetricValues\<close> stores them.\<close>

definition ascending :: "jsnum list \<Rightarrow> bool" where
  "ascending vals = ((\<forall>v \<in> set vals. number_isFinite v) \<and> sorted (map fin_val vals))"

text \<open>Two hexadecimal digits, the form of a color channel between 0 and 255.\<close>

definition hexByte :: "nat \<Rightarrow> string" where
  "hexByte k = [hexChar (k div 16), hexChar (k mod 16)]"

text \<open>
  An engine for the examples: its \<^verbatim>\<open>Math.log10\<close> is the correctly rounded logarithm.
  The examples use the linear transform, which takes no logarithm, so they are the same
  for every other engine (\<open>valueToColor_linear\<close> below).
\<close>

fun log10_example :: "jsnum \<Rightarrow> jsnum" where
  "log10_example (Fin x) = (if x < 0 then NaN else if x = 0 then NInf else rnd (log 10 x))"
| "log10_example PInf = PInf"
| "log10_example NInf = NaN"
| "log10_example NaN = NaN"

text \<open>A row with a value but a blank source country.\<close>

definition orphan_row :: row where
  "orphan_row =
     blank_row\<lparr>src_country := Some (utf16 ''  ''), dst_country := Some (utf16 ''FR''),
               p50_ms := Fin 1000\<rparr>"

text \<open>
  The states the scheduler passes through with the layer loaded: a callback queued and a
  refresh pending, and a pass under way. \<open>sched_ok\<close> holds in every state reached from
  rest: at most one callback is queued, none during a pass, and \<^verbatim>\<open>refreshScheduled\<close> is set
  exactly while a callback is queued or a pass is under way.
\<close>

definition waiting :: "callback \<Rightarrow> nat \<Rightarrow> sched" where
  "waiting cb k =
     \<lparr>geoLayer = True, refreshScheduled = True, refreshPending = True, mapLoading = True,
      frameQueue = [cb], running = False, passes = k\<rparr>"

definition in_pass :: "bool \<Rightarrow> nat \<Rightarrow> sched" where
  "in_pass p k =
     \<lparr>geoLayer = True, refreshScheduled = True, refreshPending = p, mapLoading = True,
      frameQueue = [], running = True, passes = k\<rparr>"

definition sched_ok :: "sched \<Rightarrow> bool" where
  "sched_ok s =
     (length (frameQueue s) \<le> 1
      \<and> (running s \<longrightarrow> frameQueue s = [])
      \<and> (refreshScheduled s \<longleftrightarrow> running s \<or> frameQueue s \<noteq> []))"

text \<open>
  The passes that will start without a further signal: one when a callback is queued or
  the pass under way has seen a signal, none otherwise.
\<close>

definition owed :: "sched \<Rightarrow> nat" where
  "owed s = (if frameQueue s \<noteq> [] \<or> (running s \<and> refreshPending s) then 1 else 0)"

text \<open>
  The signals of a burst that outlasts a pass: \<open>c\<close> of them while the pass is under way,
  the end of that pass, \<open>d\<close> more before the next animation frame, and that frame, at
  which the next pass begins.
\<close>

definition during_pass :: "nat \<times> nat \<Rightarrow> event list" where
  "during_pass cd = replicate (fst cd) Signal @ [PassEnd] @ replicate (snd cd) Signal @ [Frame]"

text \<open>
  A burst from rest: \<open>a\<close> signals before the first animation frame, \<open>b\<close> more before the
  second, at which the first pass begins, then the signals of \<open>cds\<close> over as many
  passes, and the end of the last pass.
\<close>

definition burst :: "nat \<Rightarrow> nat \<Rightarrow> (nat \<times> nat) list \<Rightarrow> event list" where
  "burst a b cds =
     replicate a Signal @ [Frame] @ replicate b Signal @ [Frame]
     @ concat (map during_pass cds) @ [PassEnd]"

section \<open>Rounding\<close>

lemma ilog2_lower:
  assumes "0 < x"
  shows "2 powi (ilog2 x) \<le> x"
proof (cases "1 \<le> x")
  case True
  then have fl: "0 < \<lfloor>x\<rfloor>" by linarith
  from bitlen_bounds[OF fl] have "2 ^ nat (bitlen \<lfloor>x\<rfloor> - 1) \<le> \<lfloor>x\<rfloor>" by simp
  then have "(2::real) ^ nat (bitlen \<lfloor>x\<rfloor> - 1) \<le> of_int \<lfloor>x\<rfloor>"
    by (metis of_int_le_iff of_int_numeral of_int_power)
  also have "\<dots> \<le> x" by simp
  finally have "(2::real) ^ nat (bitlen \<lfloor>x\<rfloor> - 1) \<le> x" .
  moreover have "0 \<le> bitlen \<lfloor>x\<rfloor> - 1"
    using fl by (simp add: bitlen_alt_def)
  ultimately show ?thesis
    using True by (simp add: ilog2_def power_int_def)
next
  case False
  with assms have x1: "x < 1" by simp
  define m where "m = \<lceil>1 / x\<rceil> - 1"
  have "1 < 1 / x" using assms x1 by simp
  then have m0: "0 < m" unfolding m_def by linarith
  from bitlen_bounds[OF m0] have "m < 2 ^ nat (bitlen m)" by simp
  then have "\<lceil>1 / x\<rceil> \<le> 2 ^ nat (bitlen m)" unfolding m_def by simp
  then have "1 / x \<le> 2 ^ nat (bitlen m)"
    by (metis ceiling_le_iff of_int_numeral of_int_power)
  then have "1 / 2 ^ nat (bitlen m) \<le> x"
    using assms by (simp add: field_simps)
  moreover have "0 < bitlen m" using m0 by (simp add: bitlen_alt_def)
  ultimately show ?thesis
    using False m0 by (simp add: ilog2_def m_def[symmetric] power_int_def field_simps)
qed

lemma ilog2_upper:
  assumes "0 < x"
  shows "x < 2 powi (ilog2 x + 1)"
proof (cases "1 \<le> x")
  case True
  then have fl: "0 < \<lfloor>x\<rfloor>" by linarith
  from bitlen_bounds[OF fl] have "\<lfloor>x\<rfloor> < 2 ^ nat (bitlen \<lfloor>x\<rfloor>)" by simp
  then have "x < 2 ^ nat (bitlen \<lfloor>x\<rfloor>)"
    by (metis floor_less_iff of_int_numeral of_int_power)
  moreover have "0 \<le> bitlen \<lfloor>x\<rfloor>" by (rule bitlen_nonneg)
  ultimately show ?thesis
    using True by (simp add: ilog2_def power_int_def)
next
  case False
  with assms have x1: "x < 1" by simp
  define m where "m = \<lceil>1 / x\<rceil> - 1"
  have "1 < 1 / x" using assms x1 by simp
  then have m0: "0 < m" unfolding m_def by linarith
  have bl: "0 < bitlen m" using m0 by (simp add: bitlen_alt_def)
  from bitlen_bounds[OF m0] have "2 ^ nat (bitlen m - 1) \<le> m" by simp
  then have "2 ^ nat (bitlen m - 1) < \<lceil>1 / x\<rceil>" unfolding m_def by simp
  then have "2 ^ nat (bitlen m - 1) < 1 / x"
    by (metis less_ceiling_iff of_int_numeral of_int_power)
  then have "x < 1 / 2 ^ nat (bitlen m - 1)"
    using assms by (simp add: field_simps)
  moreover have "- bitlen m + 1 \<le> 0" using bl by simp
  moreover have "nat (- (- bitlen m + 1)) = nat (bitlen m - 1)" by simp
  ultimately show ?thesis
    using False bl
    by (simp add: ilog2_def m_def[symmetric] power_int_def field_simps)
qed

lemma rne_of_int: "rne (of_int m) = m"
  by (simp add: rne_def)

lemma rne_mono: "x \<le> y \<Longrightarrow> rne x \<le> rne y"
proof -
  assume xy: "x \<le> y"
  have fx: "\<lfloor>x\<rfloor> \<le> \<lfloor>y\<rfloor>" using xy by (rule floor_mono)
  have bx: "rne x \<le> \<lfloor>x\<rfloor> + 1" and by': "\<lfloor>y\<rfloor> \<le> rne y"
    by (simp_all add: rne_def Let_def)
  show ?thesis
  proof (cases "\<lfloor>x\<rfloor> < \<lfloor>y\<rfloor>")
    case True
    with bx by' show ?thesis by linarith
  next
    case False
    with fx have eq: "\<lfloor>x\<rfloor> = \<lfloor>y\<rfloor>" by simp
    with xy show ?thesis by (auto simp: rne_def Let_def)
  qed
qed

lemma rnd_not_NaN: "rnd x \<noteq> NaN"
  by (simp add: rnd_def Let_def)


lemma expo_nonpos:
  assumes "0 < x" "x < 2 ^ 53"
  shows "expo x \<le> 0"
proof -
  have lt: "(2::real) powi (ilog2 x) < 2 powi 53"
    using ilog2_lower[OF assms(1)] assms(2) by simp
  have "\<not> 53 \<le> ilog2 x"
  proof
    assume "53 \<le> ilog2 x"
    then have "(2::real) powi 53 \<le> 2 powi (ilog2 x)"
      by (rule power_int_increasing) simp
    with lt show False by simp
  qed
  then have "ilog2 x < 53" by simp
  then show ?thesis using assms(1) by (simp add: expo_def)
qed

lemma rnd_bounded:
  assumes x0: "0 \<le> x" and xK: "x \<le> of_int K" and K: "K \<le> 2 ^ 53" and x53: "x < 2 ^ 53"
  shows "\<exists>y. rnd x = Fin y \<and> 0 \<le> y \<and> y \<le> of_int K"
proof (cases "x = 0")
  case True
  then show ?thesis using xK by (simp add: rnd_def)
next
  case False
  with x0 have xpos: "0 < x" by simp
  define e where "e = expo x"
  define s :: real where "s = 2 powi e"
  define j where "j = nat (- e)"
  have e0: "e \<le> 0" unfolding e_def using expo_nonpos[OF xpos x53] .
  have s_eq: "s = 1 / 2 ^ j"
    using e0 by (simp add: s_def j_def power_int_def field_simps)
  have spos: "0 < s" by (simp add: s_eq)
  have KM: "of_int K / s = of_int (K * 2 ^ j)" by (simp add: s_eq)
  have "x / s \<le> of_int K / s" using xK spos by (simp add: divide_right_mono)
  then have "rne (x / s) \<le> rne (of_int (K * 2 ^ j))"
    unfolding KM by (rule rne_mono)
  then have up: "rne (x / s) \<le> K * 2 ^ j" by (simp only: rne_of_int)
  have "(0::real) \<le> x / s" using x0 spos by simp
  then have "rne (of_int 0) \<le> rne (x / s)" by (intro rne_mono) simp
  then have lo: "0 \<le> rne (x / s)" by (simp only: rne_of_int)
  define y where "y = of_int (rne (x / s)) * s"
  have y0: "0 \<le> y" using lo spos by (simp add: y_def)
  have "of_int (rne (x / s)) \<le> (of_int (K * 2 ^ j) :: real)" using up by (simp only: of_int_le_iff)
  then have "y \<le> of_int (K * 2 ^ j) * s" unfolding y_def using spos by (simp add: mult_right_mono)
  also have "\<dots> = of_int K" by (simp add: s_eq)
  finally have yK: "y \<le> of_int K" .
  have "of_int K \<le> (2::real) ^ 53" using K by (metis of_int_le_iff of_int_numeral of_int_power)
  also have "\<dots> < 2 powi 1024" by simp
  finally have "\<bar>y\<bar> < 2 powi 1024" using y0 yK by linarith
  then have "rnd x = Fin y"
    using False by (simp add: rnd_def Let_def e_def[symmetric] s_def[symmetric] y_def[symmetric])
  with y0 yK show ?thesis by blast
qed

lemma rnd_of_int_exact:
  assumes k0: "0 \<le> k" and k53: "k \<le> 2 ^ 53"
  shows "rnd (of_int k) = Fin (of_int k)"
proof (cases "k = 2 ^ 53")
  case True
  have "rnd 9007199254740992 = Fin 9007199254740992"
    by (simp add: rnd_def expo_def ilog2_def rne_def compute_bitlen Let_def)
  then show ?thesis using True by simp
next
  case False
  with k53 have lt: "k < 2 ^ 53" by simp
  show ?thesis
  proof (cases "k = 0")
    case True
    then show ?thesis by (simp add: rnd_def)
  next
    case False
    with k0 have kpos: "0 < k" by simp
    define x :: real where "x = of_int k"
    have xpos: "0 < x" using kpos by (simp add: x_def)
    have x53: "x < 2 ^ 53" unfolding x_def using lt by (metis of_int_less_iff of_int_numeral of_int_power)
    define e where "e = expo x"
    define s :: real where "s = 2 powi e"
    define j where "j = nat (- e)"
    have e0: "e \<le> 0" unfolding e_def using expo_nonpos[OF xpos x53] .
    have s_eq: "s = 1 / 2 ^ j"
      using e0 by (simp add: s_def j_def power_int_def field_simps)
    have "x / s = of_int (k * 2 ^ j)" by (simp add: s_eq x_def)
    then have "rne (x / s) = k * 2 ^ j" by (simp only: rne_of_int)
    then have y: "of_int (rne (x / s)) * s = x" by (simp add: s_eq x_def)
    have "\<bar>x\<bar> < 2 powi 1024" using xpos x53 by simp
    then have "rnd x = Fin x"
      using xpos by (simp add: rnd_def Let_def e_def[symmetric] s_def[symmetric] y)
    then show ?thesis by (simp add: x_def)
  qed
qed

text \<open>Rewrite rules that evaluate \<open>rnd\<close> at a given rational.\<close>

lemmas rnd_eval = rnd_def expo_def ilog2_def rne_def compute_bitlen Let_def

lemma rnd_0: "rnd 0 = Fin 0"
  by (simp add: rnd_def)

lemma rnd_1: "rnd 1 = Fin 1"
  using rnd_of_int_exact[of 1] by simp

lemma rnd_numeral: "(numeral k :: int) \<le> 2 ^ 53 \<Longrightarrow> rnd (numeral k) = Fin (numeral k)"
  using rnd_of_int_exact[of "numeral k"] by simp

section \<open>The estimator\<close>

lemma parseNum_Some: "parseNum v = Some x \<Longrightarrow> x = v \<and> number_isFinite v"
  by (simp add: parseNum_def split: if_splits)

lemma parseNum_None: "parseNum v = None \<longleftrightarrow> \<not> number_isFinite v"
  by (simp add: parseNum_def)

lemma firstNonNegative_Some:
  "firstNonNegative vs = Some x \<Longrightarrow> Some x \<in> set vs \<and> fle (Fin 0) x"
  by (induction vs) (auto split: option.splits if_splits)

lemma computeAverageMs_existing:
  "number_isFinite (average_ms r) \<Longrightarrow> computeAverageMs r = average_ms r"
  by (simp add: computeAverageMs_def parseNum_def)

lemma computeAverageMs_estimated:
  assumes "\<not> number_isFinite (average_ms r)"
  shows "valid_average (computeAverageMs r)"
proof -
  have fb: "valid_average (case firstNonNegative
                [parseNum (p50_ms r), parseNum (p90_ms r), parseNum (p95_ms r), parseNum (max_ms r)] of
              None \<Rightarrow> Fin (- 1) | Some fallback \<Rightarrow> fallback)"
  proof (cases "firstNonNegative
                [parseNum (p50_ms r), parseNum (p90_ms r), parseNum (p95_ms r), parseNum (max_ms r)]")
    case None
    then show ?thesis by (simp add: valid_average_def)
  next
    case (Some x)
    from firstNonNegative_Some[OF Some] have "fle (Fin 0) x" and "Some x \<in> set [parseNum (p50_ms r), parseNum (p90_ms r), parseNum (p95_ms r), parseNum (max_ms r)]"
      by simp_all
    then have "number_isFinite x" by (auto simp: parseNum_def split: if_splits)
    with Some \<open>fle (Fin 0) x\<close> show ?thesis by (simp add: valid_average_def)
  qed
  have mean: "parseNum (mean_ms r) = Some m \<Longrightarrow> fle (Fin 0) m \<Longrightarrow> valid_average m" for m
    by (auto dest: parseNum_Some simp: valid_average_def)
  show ?thesis
    using assms fb mean
    by (auto simp: computeAverageMs_def parseNum_None[symmetric] Let_def valid_average_def
        split: option.splits)
qed


text \<open>
  C5. A row whose \<^verbatim>\<open>average_ms\<close> already parses to a finite number keeps it:
  \<^verbatim>\<open>computeAverageMs\<close> returns that number, whatever the other fields hold.
\<close>

theorem computeAverageMs_keeps_provided:
  "parseNum (average_ms r) = Some a \<Longrightarrow> computeAverageMs r = a"
  by (simp add: computeAverageMs_def)

theorem computeAverageMs_keeps_provided_witness:
  "parseNum (average_ms (blank_row\<lparr>max_ms := Fin (- 1), average_ms := Fin 42\<rparr>)) = Some (Fin 42)
   \<and> computeAverageMs (blank_row\<lparr>max_ms := Fin (- 1), average_ms := Fin 42\<rparr>) = Fin 42"
  using computeAverageMs_keeps_provided
          [of "blank_row\<lparr>max_ms := Fin (- 1), average_ms := Fin 42\<rparr>" "Fin 42"]
  by (simp add: parseNum_def)

text \<open>
  C2, as amended. When \<^verbatim>\<open>average_ms\<close> does not parse to a finite number and \<^verbatim>\<open>max_ms\<close>
  parses to \<open>-1\<close>, \<^verbatim>\<open>computeAverageMs\<close> returns \<open>-1\<close>, whatever the remaining fields
  hold. A provided finite \<^verbatim>\<open>average_ms\<close> is returned before \<^verbatim>\<open>max_ms\<close> is looked at.
\<close>

theorem computeAverageMs_max_sentinel:
  "parseNum (average_ms r) = None \<Longrightarrow> parseNum (max_ms r) = Some (Fin (- 1))
   \<Longrightarrow> computeAverageMs r = Fin (- 1)"
  by (simp add: computeAverageMs_def Let_def split: option.splits)

theorem computeAverageMs_max_sentinel_witness:
  "parseNum (average_ms (example_row\<lparr>max_ms := Fin (- 1)\<rparr>)) = None
   \<and> parseNum (max_ms (example_row\<lparr>max_ms := Fin (- 1)\<rparr>)) = Some (Fin (- 1))
   \<and> computeAverageMs (example_row\<lparr>max_ms := Fin (- 1)\<rparr>) = Fin (- 1)"
  using computeAverageMs_max_sentinel [of "example_row\<lparr>max_ms := Fin (- 1)\<rparr>"]
  by (simp add: parseNum_def example_row_def)

theorem computeAverageMs_max_sentinel_counterexample:
  "parseNum (max_ms (blank_row\<lparr>max_ms := Fin (- 1), average_ms := Fin 42\<rparr>)) = Some (Fin (- 1))
   \<and> computeAverageMs (blank_row\<lparr>max_ms := Fin (- 1), average_ms := Fin 42\<rparr>) = Fin 42
   \<and> Fin 42 \<noteq> Fin (- 1)"
  by (simp add: computeAverageMs_def parseNum_def)

text \<open>
  C1, as amended. After enrichment every row holds a finite \<^verbatim>\<open>average_ms\<close>, the result
  of \<^verbatim>\<open>computeAverageMs\<close> on the row: the provided value, unchanged, when the row's
  \<^verbatim>\<open>average_ms\<close> already parsed to a finite number, and otherwise either \<open>-1\<close> or a
  finite number \<open>\<ge> 0\<close>.
\<close>

theorem enrichAverageMetric_average:
  assumes "i < length rows"
  shows "average_ms (enrichAverageMetric rows ! i) = computeAverageMs (rows ! i)
         \<and> number_isFinite (computeAverageMs (rows ! i))
         \<and> (case parseNum (average_ms (rows ! i)) of
               Some existing \<Rightarrow> computeAverageMs (rows ! i) = existing
             | None \<Rightarrow> valid_average (computeAverageMs (rows ! i)))"
proof -
  have enriched: "average_ms (enrichAverageMetric rows ! i) = computeAverageMs (rows ! i)"
    using assms by (simp add: enrichAverageMetric_def)
  show ?thesis
  proof (cases "parseNum (average_ms (rows ! i))")
    case None
    then have "\<not> number_isFinite (average_ms (rows ! i))" by (simp add: parseNum_None)
    then have va: "valid_average (computeAverageMs (rows ! i))"
      by (rule computeAverageMs_estimated)
    then have "number_isFinite (computeAverageMs (rows ! i))"
      by (auto simp: valid_average_def)
    with None va enriched show ?thesis by simp
  next
    case (Some existing)
    then have fin: "number_isFinite (average_ms (rows ! i))" and ex: "existing = average_ms (rows ! i)"
      by (auto dest: parseNum_Some)
    from fin have "computeAverageMs (rows ! i) = average_ms (rows ! i)"
      by (rule computeAverageMs_existing)
    with Some fin ex enriched show ?thesis by simp
  qed
qed

theorem enrichAverageMetric_average_witness:
  "(1::nat) < length [blank_row\<lparr>average_ms := Fin 7\<rparr>, blank_row]
   \<and> average_ms (enrichAverageMetric [blank_row\<lparr>average_ms := Fin 7\<rparr>, blank_row] ! 1) = Fin (- 1)
   \<and> valid_average (computeAverageMs blank_row)"
  using enrichAverageMetric_average [of 1 "[blank_row\<lparr>average_ms := Fin 7\<rparr>, blank_row]"]
  by (simp add: blank_row_def parseNum_def computeAverageMs_def)

theorem enrichAverageMetric_average_counterexample:
  "computeAverageMs (blank_row\<lparr>average_ms := Fin (- 5)\<rparr>) = Fin (- 5)
   \<and> average_ms (hd (enrichAverageMetric [blank_row\<lparr>average_ms := Fin (- 5)\<rparr>])) = Fin (- 5)
   \<and> \<not> valid_average (Fin (- 5))"
  by (simp add: computeAverageMs_def parseNum_def enrichAverageMetric_def valid_average_def)

lemma rnd_one_hundredth: "rnd (1 / 100) = Fin (5764607523034235 / 576460752303423488)"
  by (simp add: rnd_eval)

lemma rnd_seven_tenths: "rnd (7 / 10) = Fin (3152519739159347 / 4503599627370496)"
  by (simp add: rnd_eval)

lemma rnd_seventy: "rnd (78812993478983675 / 1125899906842624) = Fin 70"
  by (simp add: rnd_eval)

lemma example_row_invalidFrac: "invalidFrac example_row (Fin 100) = lit (70 / 100)"
  by (simp add: invalidFrac_def example_row_def parseNum_def negative_def math_max_def lit_def
      rnd_one_hundredth rnd_seven_tenths)

lemma example_row_invalidCount: "estimateInvalidCount example_row (Fin 100) = Fin 70"
  by (simp add: estimateInvalidCount_def example_row_invalidFrac lit_def rnd_seven_tenths
      rnd_seventy rnd_numeral fsub_def math_max_def math_min_def)
     (simp add: example_row_def parseNum_def)

lemma example_row_computeAverageMs: "computeAverageMs example_row = Fin 169"
proof -
  have cells:
    "parseNum (average_ms example_row) = None"
    "parseNum (row_n example_row) = Some (Fin 100)"
    "parseNum (mean_ms example_row) = Some (Fin 50)"
    "parseNum (min_ms example_row) = Some (Fin (- 1))"
    "parseNum (max_ms example_row) = Some (Fin 80)"
    by (simp_all add: example_row_def parseNum_def)
  show ?thesis
    by (simp add: computeAverageMs_def cells example_row_invalidCount rnd_numeral fsub_def)
qed

text \<open>
  C3. For the row with \<^verbatim>\<open>n = 100\<close>, \<^verbatim>\<open>mean_ms = 50\<close>, \<^verbatim>\<open>min_ms = -1\<close>, \<^verbatim>\<open>p50_ms = -1\<close>,
  \<^verbatim>\<open>p90_ms = 10\<close>, \<^verbatim>\<open>p95_ms = 20\<close>, \<^verbatim>\<open>max_ms = 80\<close> and no \<^verbatim>\<open>average_ms\<close>, the invalid
  fraction is the number \<^verbatim>\<open>0.70\<close> of the p50 trigger (so at least \<^verbatim>\<open>0.70\<close>), the invalid
  count is 70 and the average is \<open>(50 * 100 + 70) / (100 - 70) = 169\<close>.
\<close>

theorem example_row_average:
  "invalidFrac example_row (Fin 100) = lit (70 / 100)
   \<and> fle (lit (70 / 100)) (invalidFrac example_row (Fin 100))
   \<and> estimateInvalidCount example_row (Fin 100) = Fin 70
   \<and> computeAverageMs example_row = Fin 169"
  by (simp add: example_row_invalidFrac example_row_invalidCount example_row_computeAverageMs
      lit_def rnd_seven_tenths)

lemma expo_cases: "expo x = - 1074 \<or> expo x = ilog2 \<bar>x\<bar> - 52"
  by (auto simp: expo_def max_def)

lemma rnd_ge_one:
  assumes x1: "1 \<le> x"
  shows "fle (Fin 1) (rnd x)"
proof -
  have xpos: "0 < x" using x1 by simp
  define e where "e = expo x"
  define s :: real where "s = 2 powi e"
  have spos: "0 < s" by (simp add: s_def)
  define y where "y = of_int (rne (x / s)) * s"
  have y1: "1 \<le> y"
  proof (cases "e \<le> 0")
    case True
    define j where "j = nat (- e)"
    have s_eq: "s = 1 / 2 ^ j"
      using True by (simp add: s_def j_def power_int_def field_simps)
    have "of_int (2 ^ j) \<le> x / s" using x1 by (simp add: s_eq)
    then have "rne (of_int (2 ^ j)) \<le> rne (x / s)" by (rule rne_mono)
    then have "2 ^ j \<le> rne (x / s)" by (simp only: rne_of_int)
    then have "(of_int (2 ^ j) :: real) \<le> of_int (rne (x / s))" by (simp only: of_int_le_iff)
    then have "of_int (2 ^ j) * s \<le> y" unfolding y_def using spos by (simp add: mult_right_mono)
    then show ?thesis by (simp add: s_eq)
  next
    case False
    then have epos: "0 < e" by simp
    with expo_cases[of x] have ee: "e = ilog2 x - 52" using xpos by (simp add: e_def)
    have "2 powi (e + 52) \<le> x" using ilog2_lower[OF xpos] by (simp add: ee)
    then have "2 powi e * 2 powi 52 \<le> x" by (simp add: power_int_add)
    then have "of_int (2 ^ 52) \<le> x / s" using spos by (simp add: s_def field_simps)
    then have "rne (of_int (2 ^ 52)) \<le> rne (x / s)" by (rule rne_mono)
    then have "2 ^ 52 \<le> rne (x / s)" by (simp only: rne_of_int)
    then have "(of_int (2 ^ 52) :: real) \<le> of_int (rne (x / s))" by (simp only: of_int_le_iff)
    then have big: "of_int (2 ^ 52) * s \<le> y" unfolding y_def using spos by (simp add: mult_right_mono)
    have s1: "1 \<le> s" unfolding s_def using epos by (simp add: one_le_power_int)
    have "(1::real) \<le> of_int (2 ^ 52) * 1" by simp
    also have "\<dots> \<le> of_int (2 ^ 52) * s" using s1 by (intro mult_left_mono) simp_all
    finally show ?thesis using big by linarith
  qed
  have "rnd x = Fin y \<or> rnd x = PInf"
    using xpos by (simp add: rnd_def Let_def e_def[symmetric] s_def[symmetric] y_def[symmetric])
  with y1 show ?thesis by auto
qed



lemma math_max_NaN: "math_max a b = NaN \<longleftrightarrow> a = NaN \<or> b = NaN"
  by (simp add: math_max_def)

lemma math_round_NaN: "math_round a = NaN \<longleftrightarrow> a = NaN"
  by (cases a) simp_all

lemma fmul_Fin_not_NaN: "a \<noteq> NaN \<Longrightarrow> k \<noteq> 0 \<Longrightarrow> fmul a (Fin k) \<noteq> NaN"
  by (cases a) (simp_all add: rnd_not_NaN)

lemma invalidFrac_not_NaN:
  assumes "1 \<le> k"
  shows "invalidFrac r (Fin k) \<noteq> NaN"
proof -
  have "fdiv (Fin 1) (math_max (Fin 1) (Fin k)) \<noteq> NaN"
    using assms by (simp add: math_max_def rnd_not_NaN)
  then show ?thesis
    by (simp add: invalidFrac_def Let_def math_max_NaN lit_def rnd_not_NaN)
qed

lemma clamp_count:
  assumes "a \<noteq> NaN" "b \<noteq> NaN" "fle (Fin 1) a"
  shows "fle (Fin 1) (math_min a (math_max (Fin 1) b))
         \<and> fle (math_min a (math_max (Fin 1) b)) a"
  using assms by (cases a; cases b) (auto simp: math_min_def math_max_def)

lemma clamp_count_int:
  assumes "b = NaN \<longrightarrow> False" "1 \<le> m"
  shows "\<exists>c. math_min (Fin (of_int m)) (math_max (Fin 1) (math_round b)) = Fin (of_int c)
             \<and> 1 \<le> c \<and> c \<le> m"
proof (cases b)
  case (Fin x)
  show ?thesis
  proof (cases "1 \<le> \<lfloor>x + 1 / 2\<rfloor>")
    case True
    then show ?thesis using Fin assms(2)
      by (auto simp: math_min_def math_max_def intro: exI[of _ m] exI[of _ "\<lfloor>x + 1 / 2\<rfloor>"])
  next
    case False
    then have "math_max (Fin 1) (math_round b) = Fin (of_int 1)"
      using Fin by (auto simp: math_max_def)
    then show ?thesis using assms(2)
      by (auto simp: math_min_def intro: exI[of _ 1])
  qed
next
  case PInf
  then show ?thesis using assms(2) by (auto simp: math_min_def math_max_def)
next
  case NInf
  then have "math_max (Fin 1) (math_round b) = Fin (of_int 1)" by (simp add: math_max_def)
  then show ?thesis using assms(2) by (auto simp: math_min_def intro: exI[of _ 1])
next
  case NaN
  with assms(1) show ?thesis by simp
qed

lemma reaches_estimation_count:
  assumes "reaches_estimation r n"
  shows "\<exists>k. n = Fin (of_int k) \<and> 0 < k"
proof -
  from assms have n: "n = (case parseNum (row_n r) of Some nRaw \<Rightarrow> math_round nRaw | None \<Rightarrow> Fin 0)"
    and pos: "\<not> fle n (Fin 0)"
    unfolding reaches_estimation_def by blast+
  show ?thesis
  proof (cases "parseNum (row_n r)")
    case None
    with n pos show ?thesis by simp
  next
    case (Some nRaw)
    then obtain x where "nRaw = Fin x"
      by (cases nRaw) (auto simp: parseNum_def split: if_splits)
    with Some n have "n = Fin (of_int \<lfloor>x + 1 / 2\<rfloor>)" by simp
    with pos show ?thesis by auto
  qed
qed

lemma rne_upper: "of_int (rne x) \<le> x + 1 / 2"
proof -
  have "x - of_int \<lfloor>x\<rfloor> < 1 / 2 \<or> 1 / 2 \<le> x - of_int \<lfloor>x\<rfloor>" by linarith
  then show ?thesis
  proof
    assume "x - of_int \<lfloor>x\<rfloor> < 1 / 2"
    then have "rne x = \<lfloor>x\<rfloor>" by (simp add: rne_def)
    moreover have "of_int \<lfloor>x\<rfloor> \<le> x" by simp
    ultimately show ?thesis by linarith
  next
    assume h: "1 / 2 \<le> x - of_int \<lfloor>x\<rfloor>"
    have "rne x \<le> \<lfloor>x\<rfloor> + 1" by (simp add: rne_def Let_def)
    then have "(of_int (rne x) :: real) \<le> of_int (\<lfloor>x\<rfloor> + 1)" by (simp only: of_int_le_iff)
    with h show ?thesis by linarith
  qed
qed

lemma rne_nonneg: "0 \<le> x \<Longrightarrow> 0 \<le> rne x"
  using rne_mono[of "of_int 0" x] by (simp add: rne_of_int del: of_int_0)

lemma tiny_le: "(2::real) powi (- 1075) \<le> 1 / 4"
proof -
  have "(2::real) powi (- 1075) \<le> 2 powi (- 2)" by (rule power_int_increasing) simp_all
  then show ?thesis by simp
qed

text \<open>Rounding raises a number by at most half a unit in the last place.\<close>

lemma rnd_upper:
  assumes y0: "0 \<le> y" and fin: "y + y / 2 ^ 53 + 2 powi (- 1075) < 2 powi 1024"
  shows "\<exists>z. rnd y = Fin z \<and> 0 \<le> z \<and> z \<le> y + y / 2 ^ 53 + 2 powi (- 1075)"
proof (cases "y = 0")
  case True
  then show ?thesis by (simp add: rnd_def)
next
  case False
  with y0 have ypos: "0 < y" by simp
  define e where "e = expo y"
  define s :: real where "s = 2 powi e"
  have spos: "0 < s" by (simp add: s_def)
  define z where "z = of_int (rne (y / s)) * s"
  have s_le: "s \<le> y / 2 ^ 52 + 2 powi (- 1074)"
  proof -
    from expo_cases[of y] have "e = - 1074 \<or> e = ilog2 y - 52" using ypos by (simp add: e_def)
    then show ?thesis
    proof
      assume "e = - 1074"
      then have "s = 2 powi (- 1074)" by (simp add: s_def)
      with ypos show ?thesis by simp
    next
      assume "e = ilog2 y - 52"
      then have "s = 2 powi (ilog2 y) * 2 powi (- 52)"
        unfolding s_def using power_int_add[of "2::real" "ilog2 y" "- 52"] by simp
      also have "\<dots> \<le> y * 2 powi (- 52)"
        using ilog2_lower[OF ypos] by (intro mult_right_mono) simp_all
      also have "\<dots> = y / 2 ^ 52" by (simp add: power_int_def field_simps)
      finally show ?thesis by (simp add: add_increasing2)
    qed
  qed
  have half: "2 powi (- 1074) / 2 = (2::real) powi (- 1075)"
    using power_int_add[of "2::real" "- 1075" 1] by simp
  have "0 \<le> y / s" using ypos spos by simp
  then have r0: "0 \<le> rne (y / s)" by (rule rne_nonneg)
  then have z0: "0 \<le> z" using spos by (simp add: z_def)
  have "of_int (rne (y / s)) * s \<le> (y / s + 1 / 2) * s"
    using rne_upper[of "y / s"] spos by (intro mult_right_mono) simp_all
  also have "\<dots> = y + s / 2" using spos by (simp add: field_simps)
  also have "\<dots> \<le> y + (y / 2 ^ 52 + 2 powi (- 1074)) / 2" using s_le by simp
  also have "\<dots> = y + y / 2 ^ 53 + 2 powi (- 1075)" using half by (simp add: field_simps)
  finally have zle: "z \<le> y + y / 2 ^ 53 + 2 powi (- 1075)" by (simp add: z_def)
  with fin z0 have "\<bar>z\<bar> < 2 powi 1024" by simp
  then have "rnd y = Fin z"
    using False by (simp add: rnd_def Let_def e_def[symmetric] s_def[symmetric] z_def[symmetric])
  with z0 zle show ?thesis by blast
qed

text \<open>From \<open>2^52\<close> on every double is an integer.\<close>

lemma rnd_integer:
  assumes big: "2 ^ 52 \<le> x" and r: "rnd x = Fin z"
  shows "\<exists>m. z = of_int m"
proof -
  have "(0::real) < 2 ^ 52" by simp
  with big have xpos: "0 < x" by linarith
  have "(2::real) powi 52 < 2 powi (ilog2 x + 1)"
    using ilog2_upper[OF xpos] big by simp
  then have "\<not> ilog2 x + 1 \<le> 52"
    using power_int_increasing[of "ilog2 x + 1" 52 "2::real"] by auto
  then have e0: "0 \<le> expo x" using xpos by (simp add: expo_def)
  define j where "j = nat (expo x)"
  have s: "(2::real) powi (expo x) = of_int (2 ^ j)"
    using e0 by (simp add: j_def power_int_def)
  from r have "z = of_int (rne (x / 2 powi expo x)) * 2 powi expo x"
    using xpos by (auto simp: rnd_def Let_def split: if_splits)
  then have "z = of_int (rne (x / 2 powi expo x) * 2 ^ j)"
    by (simp only: s) simp
  then show ?thesis ..
qed

lemma math_max_Fin: "math_max (Fin x) (Fin y) = Fin (max x y)"
  by (simp add: math_max_def max_def)

lemma rnd_literals:
  "rnd (37 / 40) = Fin (4165829655317709 / 4503599627370496)"
  "rnd (39 / 40) = Fin (8782019273372467 / 9007199254740992)"
  by (simp_all add: rnd_eval)

text \<open>For a sample count of at least 2 the invalid fraction is a number between 0 and 0.98.\<close>

lemma invalidFrac_range:
  assumes k2: "2 \<le> k"
  shows "\<exists>f. invalidFrac r (Fin k) = Fin f \<and> 0 \<le> f \<and> f \<le> 98 / 100"
proof -
  have y0: "0 \<le> 1 / k" using k2 by simp
  have yh: "1 / k \<le> 1 / 2" using k2 by (simp add: field_simps)
  have b: "1 / k + (1 / k) / 2 ^ 53 + 2 powi (- 1075) \<le> 98 / 100"
  proof -
    have "(1 / k) / 2 ^ 53 \<le> (1 / 2) / 2 ^ 53" using yh by (intro divide_right_mono) simp_all
    then have "(1 / k) / 2 ^ 53 \<le> 1 / 10" by simp
    with yh tiny_le show ?thesis by linarith
  qed
  have "98 / 100 < (2::real) powi 1024"
  proof -
    have "(2::real) powi 0 \<le> 2 powi 1024" by (rule power_int_increasing) simp_all
    then show ?thesis by simp
  qed
  with b have "1 / k + (1 / k) / 2 ^ 53 + 2 powi (- 1075) < 2 powi 1024" by linarith
  from rnd_upper[OF y0 this] b obtain g where g: "rnd (1 / k) = Fin g" "0 \<le> g" "g \<le> 98 / 100"
    by force
  have mk: "max 1 k = k" using k2 by simp
  have k0: "k \<noteq> 0" using k2 by simp
  show ?thesis
    using g(2,3) k0
    by (simp add: invalidFrac_def Let_def lit_def rnd_one_hundredth rnd_seven_tenths
        rnd_literals math_max_Fin mk g(1)) (auto simp: max_def)
qed

lemma estimateInvalidCount_clamp:
  assumes "parseNum (min_ms r) = Some (Fin (- 1))" "parseNum (max_ms r) \<noteq> Some (Fin (- 1))"
  shows "estimateInvalidCount r n =
           math_min (fsub n (Fin 1)) (math_max (Fin 1) (math_round (fmul (invalidFrac r n) n)))"
  using assms by (simp add: estimateInvalidCount_def Let_def)

lemma estimateInvalidCount_large:
  assumes mn: "parseNum (min_ms r) = Some (Fin (- 1))"
    and mx: "parseNum (max_ms r) \<noteq> Some (Fin (- 1))"
    and big: "2 ^ 53 < k" and fin: "of_int k < (2::real) powi 1024"
  shows "\<exists>c. estimateInvalidCount r (Fin (of_int k)) = Fin (of_int c) \<and> 1 \<le> c \<and> c \<le> k - 1"
proof -
  define kr :: real where "kr = of_int k"
  have kbig: "2 ^ 53 < kr"
    unfolding kr_def using big by (metis of_int_less_iff of_int_numeral of_int_power)
  then have k150: "150 \<le> kr" by simp
  from invalidFrac_range[of kr r] k150 obtain f
    where f: "invalidFrac r (Fin kr) = Fin f" "0 \<le> f" "f \<le> 98 / 100" by auto
  define y where "y = f * kr"
  have y0: "0 \<le> y" using f(2) k150 by (simp add: y_def)
  have yle: "y \<le> 98 / 100 * kr" unfolding y_def using f(3) k150 by (intro mult_right_mono) simp_all
  have "y / 2 ^ 53 \<le> y / 1000" using y0 by (intro divide_left_mono) simp_all
  then have up: "y + y / 2 ^ 53 + 2 powi (- 1075) \<le> kr - 3 / 2"
    using yle tiny_le k150 by linarith
  then have "y + y / 2 ^ 53 + 2 powi (- 1075) < 2 powi 1024" using fin by (simp add: kr_def)
  from rnd_upper[OF y0 this] up obtain z where z: "rnd y = Fin z" "0 \<le> z" "z \<le> kr - 3 / 2"
    by force
  define b where "b = \<lfloor>z + 1 / 2\<rfloor>"
  have "of_int b \<le> z + 1 / 2" by (simp add: b_def)
  then have "of_int b \<le> (of_int (k - 1) :: real)" using z(3) by (simp add: kr_def)
  then have bk: "b \<le> k - 1" by (simp only: of_int_le_iff)
  define c where "c = max 1 b"
  have c1: "1 \<le> c" by (simp add: c_def)
  have ck: "c \<le> k - 1" using bk big by (simp add: c_def)
  have inner: "math_max (Fin 1) (math_round (fmul (invalidFrac r (Fin kr)) (Fin kr))) = Fin (of_int c)"
    by (simp add: f(1) y_def[symmetric] z(1) b_def[symmetric] math_max_def c_def max_def)
  define a where "a = fsub (Fin kr) (Fin 1)"
  have a_eq: "a = rnd (of_int (k - 1))" by (simp add: a_def fsub_def kr_def)
  have a1: "fle (Fin 1) a" unfolding a_eq using big by (intro rnd_ge_one) simp
  have count: "estimateInvalidCount r (Fin kr) = math_min a (Fin (of_int c))"
    using estimateInvalidCount_clamp[OF mn mx, of "Fin kr"] by (simp add: inner a_def)
  show ?thesis
  proof (cases a)
    case (Fin av)
    with a1 have av1: "1 \<le> av" by simp
    have b52: "(2::real) ^ 52 \<le> of_int (k - 1)"
    proof -
      have "(2::int) ^ 52 \<le> k - 1" using big by simp
      then show ?thesis by (metis of_int_le_iff of_int_numeral of_int_power)
    qed
    have "rnd (of_int (k - 1)) = Fin av" using a_eq Fin by simp
    from rnd_integer[OF b52 this] obtain m where m: "av = of_int m" by blast
    show ?thesis
    proof (cases "av \<le> of_int c")
      case True
      then have "estimateInvalidCount r (Fin kr) = Fin (of_int m)"
        using count Fin m by (simp add: math_min_def)
      moreover have "1 \<le> m" using av1 m by simp
      moreover have "m \<le> k - 1" using True m ck by simp
      ultimately show ?thesis unfolding kr_def by blast
    next
      case False
      then have "estimateInvalidCount r (Fin kr) = Fin (of_int c)"
        using count Fin by (simp add: math_min_def)
      with c1 ck show ?thesis unfolding kr_def by blast
    qed
  next
    case PInf
    then have "estimateInvalidCount r (Fin kr) = Fin (of_int c)"
      using count by (simp add: math_min_def)
    with c1 ck show ?thesis unfolding kr_def by blast
  next
    case NInf
    with a1 show ?thesis by simp
  next
    case NaN
    with a1 show ?thesis by simp
  qed
qed

lemma estimateInvalidCount_small:
  assumes mn: "parseNum (min_ms r) = Some (Fin (- 1))"
    and mx: "parseNum (max_ms r) \<noteq> Some (Fin (- 1))"
    and k2: "2 \<le> k" and small: "k \<le> 2 ^ 53"
  shows "\<exists>c. estimateInvalidCount r (Fin (of_int k)) = Fin (of_int c) \<and> 1 \<le> c \<and> c \<le> k - 1"
proof -
  define b where "b = fmul (invalidFrac r (Fin (of_int k))) (Fin (of_int k))"
  have b: "b \<noteq> NaN"
    unfolding b_def using k2 by (intro fmul_Fin_not_NaN invalidFrac_not_NaN) simp_all
  have "rnd (of_int (k - 1)) = Fin (of_int (k - 1))"
    using k2 small by (intro rnd_of_int_exact) simp_all
  then have sub: "fsub (Fin (of_int k)) (Fin 1) = Fin (of_int (k - 1))"
    by (simp add: fsub_def)
  have "estimateInvalidCount r (Fin (of_int k))
        = math_min (Fin (of_int (k - 1))) (math_max (Fin 1) (math_round b))"
    using estimateInvalidCount_clamp[OF mn mx, of "Fin (of_int k)"] by (simp add: sub b_def)
  moreover have "\<exists>c. math_min (Fin (of_int (k - 1))) (math_max (Fin 1) (math_round b)) = Fin (of_int c)
                      \<and> 1 \<le> c \<and> c \<le> k - 1"
    using b k2 by (intro clamp_count_int) simp_all
  ultimately show ?thesis by auto
qed

lemma estimateInvalidCount_one:
  assumes mn: "parseNum (min_ms r) = Some (Fin (- 1))"
    and mx: "parseNum (max_ms r) \<noteq> Some (Fin (- 1))"
  shows "estimateInvalidCount r (Fin 1) = Fin 0"
proof -
  define b where "b = math_round (fmul (invalidFrac r (Fin 1)) (Fin 1))"
  have "fmul (invalidFrac r (Fin 1)) (Fin 1) \<noteq> NaN"
    by (intro fmul_Fin_not_NaN invalidFrac_not_NaN) simp_all
  then have b: "b \<noteq> NaN" by (simp add: b_def math_round_NaN)
  have "estimateInvalidCount r (Fin 1) = math_min (Fin 0) (math_max (Fin 1) b)"
    using estimateInvalidCount_clamp[OF mn mx, of "Fin 1"] by (simp add: fsub_def rnd_0 b_def)
  also have "\<dots> = Fin 0" using b by (cases b) (simp_all add: math_min_def math_max_def)
  finally show ?thesis .
qed

lemma estimateInvalidCount_no_sentinel:
  assumes "parseNum (min_ms r) \<noteq> Some (Fin (- 1))" "parseNum (max_ms r) \<noteq> Some (Fin (- 1))"
  shows "estimateInvalidCount r n = Fin 0"
  using assms by (simp add: estimateInvalidCount_def)

text \<open>
  C4, as amended. On a row on which \<^verbatim>\<open>computeAverageMs\<close> reaches the estimation branch
  with \<^verbatim>\<open>min_ms\<close> parsing to \<open>-1\<close> and a sample count \<open>n \<ge> 2\<close> (a number, so at most
  \<^verbatim>\<open>Number.MAX_VALUE\<close>), the invalid count is an integer in \<open>[1, n - 1]\<close>: never zero and
  never all of \<open>n\<close>. Whenever \<^verbatim>\<open>min_ms\<close> does not parse to \<open>-1\<close> (and \<^verbatim>\<open>max_ms\<close> neither)
  the count is 0, whatever \<open>n\<close> is; and for \<open>n = 1\<close> it is 0 also when \<^verbatim>\<open>min_ms\<close> is \<open>-1\<close>.
\<close>

theorem estimateInvalidCount_range:
  "(reaches_estimation r n \<and> parseNum (min_ms r) = Some (Fin (- 1)) \<and> fle (Fin 2) n
      \<and> fle n (Fin MAX_VALUE)
    \<longrightarrow> (\<exists>k c. n = Fin (of_int k) \<and> estimateInvalidCount r n = Fin (of_int c)
               \<and> 1 \<le> c \<and> c \<le> k - 1))
   \<and> (parseNum (min_ms r) \<noteq> Some (Fin (- 1)) \<and> parseNum (max_ms r) \<noteq> Some (Fin (- 1))
       \<longrightarrow> estimateInvalidCount r n = Fin 0)
   \<and> (parseNum (min_ms r) = Some (Fin (- 1)) \<and> parseNum (max_ms r) \<noteq> Some (Fin (- 1))
       \<longrightarrow> estimateInvalidCount r (Fin 1) = Fin 0)"
proof -
  have main: "\<exists>k c. n = Fin (of_int k) \<and> estimateInvalidCount r n = Fin (of_int c)
               \<and> 1 \<le> c \<and> c \<le> k - 1"
    if reach: "reaches_estimation r n" and mn: "parseNum (min_ms r) = Some (Fin (- 1))"
      and n2: "fle (Fin 2) n" and nmax: "fle n (Fin MAX_VALUE)"
  proof -
    from reaches_estimation_count[OF reach] obtain k where n: "n = Fin (of_int k)" and "0 < k"
      by blast
    from n2 n have k2: "2 \<le> k" by simp
    have mx: "parseNum (max_ms r) \<noteq> Some (Fin (- 1))"
      using reach unfolding reaches_estimation_def by blast
    have "MAX_VALUE < 2 powi 1024" by (simp add: MAX_VALUE_def)
    with nmax n have fin: "of_int k < (2::real) powi 1024" by simp
    have "\<exists>c. estimateInvalidCount r (Fin (of_int k)) = Fin (of_int c) \<and> 1 \<le> c \<and> c \<le> k - 1"
    proof (cases "k \<le> 2 ^ 53")
      case True
      with mn mx k2 show ?thesis by (intro estimateInvalidCount_small)
    next
      case False
      then have "2 ^ 53 < k" by simp
      with mn mx fin show ?thesis by (intro estimateInvalidCount_large)
    qed
    with n show ?thesis by blast
  qed
  from main estimateInvalidCount_no_sentinel estimateInvalidCount_one show ?thesis by blast
qed

theorem estimateInvalidCount_range_witness:
  "reaches_estimation example_row (Fin 100)
   \<and> parseNum (min_ms example_row) = Some (Fin (- 1))
   \<and> fle (Fin 2) (Fin 100) \<and> fle (Fin 100) (Fin MAX_VALUE)
   \<and> estimateInvalidCount example_row (Fin 100) = Fin 70
   \<and> parseNum (max_ms example_row) \<noteq> Some (Fin (- 1))
   \<and> estimateInvalidCount example_row (Fin 1) = Fin 0
   \<and> parseNum (min_ms (example_row\<lparr>min_ms := Fin 5\<rparr>)) \<noteq> Some (Fin (- 1))
   \<and> parseNum (max_ms (example_row\<lparr>min_ms := Fin 5\<rparr>)) \<noteq> Some (Fin (- 1))
   \<and> estimateInvalidCount (example_row\<lparr>min_ms := Fin 5\<rparr>) (Fin 100) = Fin 0"
proof -
  have reach: "reaches_estimation example_row (Fin 100)"
    by (simp add: reaches_estimation_def example_row_def parseNum_def)
  have cells: "parseNum (min_ms example_row) = Some (Fin (- 1))"
    "parseNum (max_ms example_row) \<noteq> Some (Fin (- 1))"
    "parseNum (min_ms (example_row\<lparr>min_ms := Fin 5\<rparr>)) \<noteq> Some (Fin (- 1))"
    "parseNum (max_ms (example_row\<lparr>min_ms := Fin 5\<rparr>)) \<noteq> Some (Fin (- 1))"
    by (simp_all add: example_row_def parseNum_def)
  have mv: "fle (Fin 100) (Fin MAX_VALUE)" by (simp add: MAX_VALUE_def)
  from estimateInvalidCount_range [of example_row "Fin 100"]
       estimateInvalidCount_range [of "example_row\<lparr>min_ms := Fin 5\<rparr>" "Fin 100"]
       reach cells mv example_row_invalidCount
  show ?thesis by simp
qed

theorem estimateInvalidCount_range_counterexample:
  "reaches_estimation (example_row\<lparr>row_n := Fin 1\<rparr>) (Fin 1)
   \<and> estimateInvalidCount (example_row\<lparr>row_n := Fin 1\<rparr>) (Fin 1) = Fin 0
   \<and> reaches_estimation
        (blank_row\<lparr>row_n := Fin 100, mean_ms := Fin (- 3), min_ms := Fin 5, max_ms := Fin 80\<rparr>)
        (Fin 100)
   \<and> estimateInvalidCount
        (blank_row\<lparr>row_n := Fin 100, mean_ms := Fin (- 3), min_ms := Fin 5, max_ms := Fin 80\<rparr>)
        (Fin 100) = Fin 0
   \<and> \<not> fle (Fin 1) (Fin 0)"
proof -
  have frac: "invalidFrac (example_row\<lparr>row_n := Fin 1\<rparr>) (Fin 1) = Fin 1"
    by (simp add: invalidFrac_def example_row_def parseNum_def negative_def math_max_def lit_def
        rnd_one_hundredth rnd_seven_tenths rnd_1)
  have c1: "estimateInvalidCount (example_row\<lparr>row_n := Fin 1\<rparr>) (Fin 1) = Fin 0"
    by (simp add: estimateInvalidCount_def frac fsub_def rnd_0 rnd_1 math_max_def math_min_def)
       (simp add: example_row_def parseNum_def)
  show ?thesis
    by (simp add: c1)
       (simp add: reaches_estimation_def estimateInvalidCount_def example_row_def blank_row_def
          parseNum_def)
qed

lemma rnd_between:
  assumes x0: "0 \<le> x" and xK: "x \<le> of_int K" and K: "K \<le> 2 ^ 53"
  shows "\<exists>y. rnd x = Fin y \<and> 0 \<le> y \<and> y \<le> of_int K"
proof (cases "x < 2 ^ 53")
  case True
  with assms show ?thesis by (intro rnd_bounded)
next
  case False
  have "(of_int K :: real) \<le> 2 ^ 53" using K by (metis of_int_le_iff of_int_numeral of_int_power)
  with False xK have xe: "x = of_int K" by linarith
  have "0 \<le> K" using x0 xe by simp
  then have "rnd (of_int K) = Fin (of_int K)" using K by (rule rnd_of_int_exact)
  with xe x0 show ?thesis by simp
qed

lemma length_minus_one:
  assumes "vals \<noteq> []" "length vals \<le> 2 ^ 53"
  shows "fsub (Fin (real (length vals))) (Fin 1) = Fin (of_int (int (length vals) - 1))"
proof -
  have "0 \<le> int (length vals) - 1" using assms(1) by (cases vals) simp_all
  moreover have "int (length vals) - 1 \<le> 2 ^ 53" using assms(2) by simp
  ultimately have "rnd (of_int (int (length vals) - 1)) = Fin (of_int (int (length vals) - 1))"
    by (rule rnd_of_int_exact)
  then show ?thesis by (simp add: fsub_def)
qed

lemma index_js_int:
  "0 \<le> k \<Longrightarrow> k < int (length vals) \<Longrightarrow> index_js vals (Fin (of_int k)) = Num (vals ! nat k)"
  by (simp add: index_js_def)

lemma q_at_index:
  assumes idx: "fmul (fdiv p (Fin 100)) (fsub (Fin (real (length vals))) (Fin 1)) = Fin i"
    and i0: "0 \<le> i" and iL: "i \<le> of_int (int (length vals) - 1)"
  shows "q vals p =
           (if i = of_int \<lfloor>i\<rfloor> then Num (vals ! nat \<lfloor>i\<rfloor>)
            else Num (fadd (fmul (vals ! nat \<lfloor>i\<rfloor>) (fsub (Fin 1) (fsub (Fin i) (Fin (of_int \<lfloor>i\<rfloor>)))))
                           (fmul (vals ! nat \<lceil>i\<rceil>) (fsub (Fin i) (Fin (of_int \<lfloor>i\<rfloor>))))))"
proof -
  have f0: "0 \<le> \<lfloor>i\<rfloor>" using i0 by simp
  have fL: "\<lfloor>i\<rfloor> < int (length vals)" using iL by (simp add: floor_less_iff)
  have lo: "index_js vals (Fin (of_int \<lfloor>i\<rfloor>)) = Num (vals ! nat \<lfloor>i\<rfloor>)"
    using f0 fL by (rule index_js_int)
  show ?thesis
  proof (cases "i = of_int \<lfloor>i\<rfloor>")
    case True
    then have "\<lceil>i\<rceil> = \<lfloor>i\<rfloor>" by (metis ceiling_of_int)
    then show ?thesis using True lo
      by (simp add: q_def idx Let_def feq_def)
  next
    case False
    have ne: "\<lceil>i\<rceil> \<noteq> \<lfloor>i\<rfloor>"
    proof
      assume "\<lceil>i\<rceil> = \<lfloor>i\<rfloor>"
      then have "i \<le> of_int \<lfloor>i\<rfloor>" by (metis le_of_int_ceiling)
      moreover have "of_int \<lfloor>i\<rfloor> \<le> i" by simp
      ultimately show False using False by simp
    qed
    have c0: "0 \<le> \<lceil>i\<rceil>" using i0 by simp
    have cL: "\<lceil>i\<rceil> < int (length vals)" using iL by (simp add: ceiling_less_iff)
    have hi: "index_js vals (Fin (of_int \<lceil>i\<rceil>)) = Num (vals ! nat \<lceil>i\<rceil>)"
      using c0 cL by (rule index_js_int)
    show ?thesis using False ne lo hi
      by (simp add: q_def idx Let_def feq_def)
  qed
qed


lemma ascending_bounds:
  assumes "ascending vals" "v \<in> set vals"
  shows "fle (hd vals) v \<and> fle v (last vals)"
proof -
  from assms(1) have fin: "\<forall>w \<in> set vals. number_isFinite w" and srt: "sorted (map fin_val vals)"
    by (simp_all add: ascending_def)
  from assms(2) obtain k where k: "k < length vals" "vals ! k = v" by (auto simp: in_set_conv_nth)
  then have ne: "vals \<noteq> []" by auto
  have fle_iff: "fle a b \<longleftrightarrow> fin_val a \<le> fin_val b" if "number_isFinite a" "number_isFinite b" for a b
    using that by (cases a; cases b) simp_all
  have hdv: "fin_val (hd vals) \<le> fin_val v"
    using sorted_nth_mono[OF srt, of 0 k] k ne by (simp add: hd_conv_nth)
  have vlast: "fin_val v \<le> fin_val (last vals)"
    using sorted_nth_mono[OF srt, of k "length vals - 1"] k ne by (simp add: last_conv_nth)
  have "number_isFinite (hd vals)" "number_isFinite (last vals)" "number_isFinite v"
    using fin ne assms(2) by simp_all
  with hdv vlast show ?thesis by (simp add: fle_iff)
qed

text \<open>
  C8. For a non-empty array (of at most \<open>2^53\<close> elements, which every array is), the
  percentile lookup \<^verbatim>\<open>q\<close> returns the first element at \<open>p = 0\<close> and the last at \<open>p = 100\<close>, the
  minimum and the maximum when the array is ascending. For every \<open>p\<close> in \<open>[0, 100]\<close> the index
  \<^verbatim>\<open>(p/100) * (length - 1)\<close> lies in \<open>[0, length - 1]\<close>, and \<^verbatim>\<open>q\<close> returns the element there
  when the index is integral and otherwise interpolates linearly between the elements at
  its floor and its ceiling, with the weights \<open>1 - t\<close> and \<open>t\<close>, \<open>t\<close> the fractional part.
\<close>

theorem q_percentile:
  assumes ne: "vals \<noteq> []" and len: "length vals \<le> 2 ^ 53"
  shows "q vals (Fin 0) = Num (hd vals)
         \<and> q vals (Fin 100) = Num (last vals)
         \<and> (ascending vals \<longrightarrow> (\<forall>v \<in> set vals. fle (hd vals) v \<and> fle v (last vals)))
         \<and> (\<forall>p. 0 \<le> p \<and> p \<le> 100 \<longrightarrow>
               (\<exists>i. fmul (fdiv (Fin p) (Fin 100)) (fsub (Fin (real (length vals))) (Fin 1)) = Fin i
                    \<and> 0 \<le> i \<and> i \<le> real (length vals) - 1
                    \<and> q vals (Fin p) =
                        (if i = of_int \<lfloor>i\<rfloor> then Num (vals ! nat \<lfloor>i\<rfloor>)
                         else Num (fadd (fmul (vals ! nat \<lfloor>i\<rfloor>)
                                              (fsub (Fin 1) (fsub (Fin i) (Fin (of_int \<lfloor>i\<rfloor>)))))
                                        (fmul (vals ! nat \<lceil>i\<rceil>)
                                              (fsub (Fin i) (Fin (of_int \<lfloor>i\<rfloor>))))))))"
proof -
  define L where "L = int (length vals) - 1"
  have L0: "0 \<le> L" using ne by (cases vals) (simp_all add: L_def)
  have L53: "L \<le> 2 ^ 53" using len by (simp add: L_def)
  have sub: "fsub (Fin (real (length vals))) (Fin 1) = Fin (of_int L)"
    unfolding L_def using ne len by (rule length_minus_one)
  have rL: "real (length vals) - 1 = of_int L" by (simp add: L_def)
  have general: "\<exists>i. fmul (fdiv (Fin p) (Fin 100)) (fsub (Fin (real (length vals))) (Fin 1)) = Fin i
                    \<and> 0 \<le> i \<and> i \<le> real (length vals) - 1
                    \<and> q vals (Fin p) =
                        (if i = of_int \<lfloor>i\<rfloor> then Num (vals ! nat \<lfloor>i\<rfloor>)
                         else Num (fadd (fmul (vals ! nat \<lfloor>i\<rfloor>)
                                              (fsub (Fin 1) (fsub (Fin i) (Fin (of_int \<lfloor>i\<rfloor>)))))
                                        (fmul (vals ! nat \<lceil>i\<rceil>)
                                              (fsub (Fin i) (Fin (of_int \<lfloor>i\<rfloor>))))))"
    if p: "0 \<le> p" "p \<le> 100" for p
  proof -
    have "0 \<le> p / 100" "p / 100 \<le> of_int 1" using p by simp_all
    from rnd_between[OF this] obtain r where r: "rnd (p / 100) = Fin r" "0 \<le> r" "r \<le> 1"
      by auto
    have "0 \<le> r * of_int L" using r(2) L0 by simp
    moreover have "r * of_int L \<le> of_int L" using mult_right_mono[of r 1 "of_int L"] r(3) L0 by simp
    ultimately obtain i where i: "rnd (r * of_int L) = Fin i" "0 \<le> i" "i \<le> of_int L"
      using rnd_between[OF _ _ L53] by blast
    have idx: "fmul (fdiv (Fin p) (Fin 100)) (fsub (Fin (real (length vals))) (Fin 1)) = Fin i"
      by (simp add: sub r(1) i(1))
    from q_at_index[OF idx i(2)] i(3) have "q vals (Fin p) =
           (if i = of_int \<lfloor>i\<rfloor> then Num (vals ! nat \<lfloor>i\<rfloor>)
            else Num (fadd (fmul (vals ! nat \<lfloor>i\<rfloor>) (fsub (Fin 1) (fsub (Fin i) (Fin (of_int \<lfloor>i\<rfloor>)))))
                           (fmul (vals ! nat \<lceil>i\<rceil>) (fsub (Fin i) (Fin (of_int \<lfloor>i\<rfloor>))))))"
      by (simp add: L_def)
    with idx i(2) i(3) rL show ?thesis by auto
  qed
  have i0: "fmul (fdiv (Fin 0) (Fin 100)) (fsub (Fin (real (length vals))) (Fin 1)) = Fin 0"
    by (simp add: sub rnd_0)
  have len1: "Suc 0 \<le> length vals" using ne by (cases vals) simp_all
  have q0: "q vals (Fin 0) = Num (hd vals)"
    using q_at_index[OF i0] L0 ne len1 by (simp add: L_def hd_conv_nth)
  have "rnd (of_int L) = Fin (of_int L)" using L0 L53 by (rule rnd_of_int_exact)
  then have i100: "fmul (fdiv (Fin 100) (Fin 100)) (fsub (Fin (real (length vals))) (Fin 1)) = Fin (of_int L)"
    by (simp add: sub rnd_1)
  have "nat L = length vals - 1" by (simp add: L_def)
  then have q100: "q vals (Fin 100) = Num (last vals)"
    using q_at_index[OF i100] L0 ne len1 by (simp add: L_def last_conv_nth)
  from q0 q100 general ascending_bounds show ?thesis by blast
qed

lemma rnd_quarter: "rnd (1 / 4) = Fin (1 / 4)" by (simp add: rnd_eval)
lemma rnd_half: "rnd (1 / 2) = Fin (1 / 2)" by (simp add: rnd_eval)

lemma q_example_interpolated: "q [Fin 10, Fin 20, Fin 40] (Fin 25) = Num (Fin 15)"
proof -
  have c: "\<lceil>1 / 2 :: real\<rceil> = 1" by (rule ceiling_unique) simp_all
  show ?thesis
    by (simp add: q_def index_js_def feq_def fsub_def rnd_quarter rnd_half rnd_numeral rnd_1 c Let_def)
qed


theorem q_percentile_witness:
  "[Fin 10, Fin 20, Fin 40] \<noteq> [] \<and> length [Fin 10, Fin 20, Fin 40] \<le> (2::nat) ^ 53
   \<and> ascending [Fin 10, Fin 20, Fin 40]
   \<and> q [Fin 10, Fin 20, Fin 40] (Fin 0) = Num (Fin 10)
   \<and> q [Fin 10, Fin 20, Fin 40] (Fin 100) = Num (Fin 40)
   \<and> q [Fin 10, Fin 20, Fin 40] (Fin 25) = Num (Fin 15)
   \<and> fle (Fin 10) (Fin 20) \<and> fle (Fin 20) (Fin 40)"
proof -
  have ne: "[Fin 10, Fin 20, Fin 40] \<noteq> []" by simp
  have len: "length [Fin 10, Fin 20, Fin 40] \<le> (2::nat) ^ 53" by simp
  have asc: "ascending [Fin 10, Fin 20, Fin 40]" by (simp add: ascending_def)
  from q_percentile [OF ne len] asc q_example_interpolated show ?thesis by simp
qed

lemma rnd_one_twentieth: "rnd (1 / 20) = Fin (3602879701896397 / 72057594037927936)"
  by (simp add: rnd_eval)

lemma rnd_nineteen_twentieths: "rnd (19 / 20) = Fin (4278419646001971 / 4503599627370496)"
  by (simp add: rnd_eval)

lemma rnd_one_millionth: "rnd (1 / 1000000) = Fin (4722366482869645 / 4722366482869645213696)"
  by (simp add: rnd_eval)

lemma buildMetricValues_single:
  "buildMetricValues [blank_row\<lparr>p50_ms := v\<rparr>] ''p50_ms'' =
     Some (if number_isFinite v \<and> fle (Fin 0) v then [v] else [])"
  by (simp add: buildMetricValues_def METRIC_FIELDS_def DEFAULT_METRIC_def List.map_filter_def
      validValue_def row_metric_def parseNum_def)

lemma q_single: "q [v] (Fin 5) = Num v" "q [v] (Fin 95) = Num v"
  by (simp_all add: q_def fsub_def rnd_0 index_js_def feq_def rnd_one_twentieth
      rnd_nineteen_twentieths)

lemma absorbed: "fadd (Fin 10000000000000000) (lit (1 / 1000000)) = Fin 10000000000000000"
  by (simp add: lit_def rnd_one_millionth) (simp add: rnd_eval)

text \<open>
  C7. In auto mode, for a table whose only \<^verbatim>\<open>p50_ms\<close> value is \<open>10^16\<close>, the scale of the
  starting configuration has \<open>max = min\<close>: the guard \<^verbatim>\<open>Math.max(max, min + 1e-6)\<close> adds less
  than half the spacing of the doubles at \<open>min\<close>, so the sum is \<open>min\<close> again.
\<close>

theorem computeGlobalScale_degenerate:
  "computeGlobalScale scaleCfg0 (buildMetricValues [blank_row\<lparr>p50_ms := Fin 10000000000000000\<rparr>])
     ''p50_ms''
   = \<lparr>range_min = Num (Fin 10000000000000000), range_max = Num (Fin 10000000000000000)\<rparr>
   \<and> fle (Fin 10000000000000000) (Fin 10000000000000000)"
  by (simp add: computeGlobalScale_def buildMetricValues_single q_single scaleCfg0_def absorbed
      math_max_def Let_def)

lemma buildRenderState_manual:
  "\<not> auto cfg \<Longrightarrow>
     buildRenderState cfg mv s m = \<lparr>src = s, metric = m, scaleMin = Num (minMs cfg), scaleMax = Num (maxMs cfg)\<rparr>"
  by (simp add: buildRenderState_def)

lemma computeGlobalScale_empty:
  "mv m = None \<or> mv m = Some [] \<Longrightarrow>
     computeGlobalScale cfg mv m = \<lparr>range_min = Num (Fin 0), range_max = Num (Fin 1)\<rparr>"
  by (auto simp: computeGlobalScale_def)

section \<open>Metric values, index and scale\<close>





lemma buildMetricValues_other:
  assumes "mt \<notin> set METRIC_FIELDS"
  shows "buildMetricValues rows mt = None"
  using assms by (simp add: buildMetricValues_def map_of_map_restrict)








lemma orphan_row_key: "country_key up (src_country orphan_row) = []"
  by (simp add: orphan_row_def blank_row_def country_key_def trim_def utf16_def is_space_def)





lemma example_row_keys:
  "country_key up (src_country example_row) = utf16 ''DE''"
  "country_key up (dst_country example_row) = utf16 ''FR''"
  by (simp_all add: example_row_def country_key_def trim_def utf16_def is_space_def
      upper_ascii_def)

lemma utf16_neq: "utf16 ''DE'' \<noteq> []" "utf16 ''FR'' \<noteq> []"
  by (simp_all add: utf16_def)

lemma buildIndex_example:
  "bySrc (buildIndex up [orphan_row, example_row]) (utf16 ''DE'')
     = Some [utf16 ''FR'' \<mapsto> example_row]"
  by (simp add: buildIndex_def index_row_def orphan_row_key example_row_keys utf16_neq Let_def)



section \<open>Colors and styles\<close>

lemma hexToRgb_green: "hexToRgb (utf16 ''#00b050'') = Some (Fin 0, Fin 176, Fin 80)"
  by (simp add: hexToRgb_def trim_def utf16_def is_space_def hexDigit_def)

lemma hexToRgb_red: "hexToRgb (utf16 ''#ff0000'') = Some (Fin 255, Fin 0, Fin 0)"
  by (simp add: hexToRgb_def trim_def utf16_def is_space_def hexDigit_def)

lemma rampColor_eq:
  "rampColor t =
     Inr (rgbToHex (math_round (lerp (Fin 0) (Fin 255) t), math_round (lerp (Fin 176) (Fin 0) t),
                    math_round (lerp (Fin 80) (Fin 0) t)))"
  by (simp add: rampColor_def hexToRgb_green hexToRgb_red)

lemma toHex_values:
  "toHex (Fin 0) = ''00''" "toHex (Fin 176) = ''b0''" "toHex (Fin 80) = ''50''"
  "toHex (Fin 128) = ''80''" "toHex (Fin 88) = ''58''" "toHex (Fin 40) = ''28''"
  by (simp_all add: toHex_def hexString.simps hexChar_def)

lemma rnd_negatives: "rnd (- 1) = Fin (- 1)" "rnd (- 176) = Fin (- 176)" "rnd (- 80) = Fin (- 80)"
  "rnd (- 88) = Fin (- 88)" "rnd (- 40) = Fin (- 40)"
  by (simp_all add: rnd_eval)

lemma rnd_halves: "rnd (255 / 2) = Fin (255 / 2)"
  by (simp add: rnd_eval)

lemma rampColor_0: "rampColor (Fin 0) = Inr ''#00b050''"
  by (simp add: rampColor_eq lerp_def fsub_def rnd_numeral rnd_negatives rnd_0 rgbToHex_def
      toHex_values)

lemma rampColor_half: "rampColor (Fin (1 / 2)) = Inr ''#805828''"
  by (simp add: rampColor_eq lerp_def fsub_def rnd_numeral rnd_negatives rnd_0 rnd_halves
      rgbToHex_def toHex_values)

lemma normalise_sentinel: "normalise (Fin (- 1)) (Fin 0) (Fin 1) = Fin 0"
  by (simp add: normalise_def fsub_def rnd_1 rnd_negatives clamp01_def math_max_def math_min_def)

lemma normalise_half: "normalise (Fin 50) (Fin 0) (Fin 100) = Fin (1 / 2)"
  by (simp add: normalise_def fsub_def rnd_numeral rnd_half clamp01_def math_max_def math_min_def)

text \<open>Rounding is symmetric.\<close>

lemma rne_minus: "rne (- x) = - rne x"
proof (cases "x = of_int \<lfloor>x\<rfloor>")
  case True
  then obtain m where "x = of_int m" ..
  then have "rne x = m" "rne (- x) = - m"
    using rne_of_int[of m] rne_of_int[of "- m"] by simp_all
  then show ?thesis by simp
next
  case False
  define f where "f = \<lfloor>x\<rfloor>"
  define d where "d = x - of_int f"
  have fl: "of_int f \<le> x" "x < of_int f + 1" by (simp_all add: f_def)
  have ne: "x \<noteq> of_int f" using False by (simp add: f_def)
  have d0: "0 < d" using ne fl(1) unfolding d_def by linarith
  have d1: "d < 1" using fl(2) unfolding d_def by linarith
  have fm: "\<lfloor>- x\<rfloor> = - f - 1"
    by (rule floor_unique) (use d0 d1 in \<open>simp_all add: d_def\<close>)
  have dm: "- x - of_int (- f - 1) = 1 - d" by (simp add: d_def)
  have rx: "rne x = (if d < 1 / 2 then f else if 1 / 2 < d then f + 1
                     else if even f then f else f + 1)"
    by (simp add: rne_def Let_def f_def d_def)
  have "rne (- x) = (let g = - f - 1; e = - x - of_int g
                     in if e < 1 / 2 then g else if 1 / 2 < e then g + 1
                        else if even g then g else g + 1)"
    by (simp only: rne_def fm)
  then have rm: "rne (- x) = (if 1 - d < 1 / 2 then - f - 1 else if 1 / 2 < 1 - d then - f
                     else if odd f then - f - 1 else - f)"
    unfolding Let_def dm by simp
  show ?thesis
    unfolding rx rm using d0 d1 by auto
qed

lemma expo_minus: "expo (- x) = expo x"
  by (simp add: expo_def)

lemma rnd_minus: "rnd (- x) = fneg (rnd x)"
proof (cases "x = 0")
  case True
  then show ?thesis by (simp add: rnd_def)
next
  case False
  have "of_int (rne (- x / 2 powi expo x)) * 2 powi expo x
        = - (of_int (rne (x / 2 powi expo x)) * (2::real) powi expo x)"
    using rne_minus[of "x / 2 powi expo x"] by simp
  then show ?thesis
    using False by (auto simp: rnd_def Let_def expo_minus)
qed

text \<open>
  A color channel: for a position between 0 and 1, the rounded interpolation between an
  anchor channel and 0 is an integer between the two, in either direction.
\<close>

lemma channel_up:
  assumes x: "0 \<le> x" "x \<le> 1" and A: "0 \<le> A" "A \<le> 2 ^ 53"
  shows "\<exists>c. math_round (lerp (Fin 0) (Fin (of_int A)) (Fin x)) = Fin (of_int c) \<and> 0 \<le> c \<and> c \<le> A"
proof -
  have d: "fsub (Fin (of_int A)) (Fin 0) = Fin (of_int A)"
    using rnd_of_int_exact[OF A] by (simp add: fsub_def)
  have "0 \<le> of_int A * x" using x(1) A(1) by simp
  moreover have "of_int A * x \<le> of_int A" using mult_left_mono[of x 1 "of_int A"] x(2) A(1) by simp
  ultimately obtain y where y: "rnd (of_int A * x) = Fin y" "0 \<le> y" "y \<le> of_int A"
    using rnd_between[OF _ _ A(2)] by blast
  from rnd_between[OF y(2) y(3) A(2)] obtain z where z: "rnd y = Fin z" "0 \<le> z" "z \<le> of_int A"
    by blast
  have l: "lerp (Fin 0) (Fin (of_int A)) (Fin x) = Fin z"
    by (simp add: lerp_def d y(1) z(1))
  have "0 \<le> \<lfloor>z + 1 / 2\<rfloor>" using z(2) by simp
  moreover have "\<lfloor>z + 1 / 2\<rfloor> \<le> A" using z(3) by (simp add: floor_le_iff)
  ultimately show ?thesis using l by auto
qed

lemma channel_down:
  assumes x: "0 \<le> x" "x \<le> 1" and A: "0 \<le> A" "A \<le> 2 ^ 53"
  shows "\<exists>c. math_round (lerp (Fin (of_int A)) (Fin 0) (Fin x)) = Fin (of_int c) \<and> 0 \<le> c \<and> c \<le> A"
proof -
  have "rnd (- of_int A) = Fin (- of_int A)"
    using rnd_of_int_exact[OF A] by (simp add: rnd_minus)
  then have d: "fsub (Fin 0) (Fin (of_int A)) = Fin (- of_int A)"
    by (simp add: fsub_def)
  have "0 \<le> of_int A * x" using x(1) A(1) by simp
  moreover have "of_int A * x \<le> of_int A" using mult_left_mono[of x 1 "of_int A"] x(2) A(1) by simp
  ultimately obtain y where y: "rnd (of_int A * x) = Fin y" "0 \<le> y" "y \<le> of_int A"
    using rnd_between[OF _ _ A(2)] by blast
  have m: "rnd (- (of_int A * x)) = Fin (- y)" using y(1) by (simp add: rnd_minus)
  have "0 \<le> of_int A - y" "of_int A - y \<le> of_int A" using y(2,3) by simp_all
  from rnd_between[OF this A(2)] obtain z where z: "rnd (of_int A - y) = Fin z" "0 \<le> z" "z \<le> of_int A"
    by blast
  have l: "lerp (Fin (of_int A)) (Fin 0) (Fin x) = Fin z"
    by (simp add: lerp_def d m z(1))
  have "0 \<le> \<lfloor>z + 1 / 2\<rfloor>" using z(2) by simp
  moreover have "\<lfloor>z + 1 / 2\<rfloor> \<le> A" using z(3) by (simp add: floor_le_iff)
  ultimately show ?thesis using l by auto
qed

lemma toHex_byte:
  assumes "0 \<le> c" "c \<le> 255"
  shows "toHex (Fin (of_int c)) = hexByte (nat c)"
proof (cases "nat c < 16")
  case True
  then have "hexString (nat c) = [hexChar (nat c)]" by (simp add: hexString.simps)
  then show ?thesis using assms True by (simp add: toHex_def hexByte_def hexChar_def)
next
  case False
  have "nat c div 16 < 16" using assms by simp
  then have "hexString (nat c div 16) = [hexChar (nat c div 16)]" by (simp add: hexString.simps)
  then have "hexString (nat c) = [hexChar (nat c div 16), hexChar (nat c mod 16)]"
    using False by (subst hexString.simps) simp
  then show ?thesis using assms by (simp add: toHex_def hexByte_def)
qed

lemma rampColor_number:
  assumes x: "0 \<le> x" "x \<le> 1"
  shows "\<exists>rc gc bc. rc \<le> 255 \<and> gc \<le> 176 \<and> bc \<le> 80
           \<and> rampColor (Fin x) = Inr (''#'' @ hexByte rc @ hexByte gc @ hexByte bc)"
proof -
  from channel_up[OF x, of 255] obtain r where r: "math_round (lerp (Fin 0) (Fin 255) (Fin x)) = Fin (of_int r)"
    "0 \<le> r" "r \<le> 255" by auto
  from channel_down[OF x, of 176] obtain g where g: "math_round (lerp (Fin 176) (Fin 0) (Fin x)) = Fin (of_int g)"
    "0 \<le> g" "g \<le> 176" by auto
  from channel_down[OF x, of 80] obtain b where b: "math_round (lerp (Fin 80) (Fin 0) (Fin x)) = Fin (of_int b)"
    "0 \<le> b" "b \<le> 80" by auto
  have "rampColor (Fin x) = Inr (''#'' @ hexByte (nat r) @ hexByte (nat g) @ hexByte (nat b))"
    using r g b by (simp add: rampColor_eq rgbToHex_def toHex_byte)
  moreover have "nat r \<le> 255" "nat g \<le> 176" "nat b \<le> 80" using r g b by simp_all
  ultimately show ?thesis by blast
qed

lemma rampColor_NaN: "rampColor NaN = Inr ''#NaNNaNNaN''"
  by (simp add: rampColor_eq lerp_def fsub_def rnd_numeral rnd_negatives rgbToHex_def toHex_def)

lemma clamp01_cases: "clamp01 t = NaN \<or> (\<exists>x. clamp01 t = Fin x \<and> 0 \<le> x \<and> x \<le> 1)"
  by (cases t) (auto simp: clamp01_def math_max_def math_min_def)

lemma clamp01_NaN: "clamp01 t = NaN \<longleftrightarrow> t = NaN"
  by (cases t) (auto simp: clamp01_def math_max_def math_min_def)

lemma position_cases:
  "position lg cfg v minV maxV = NaN
   \<or> (\<exists>x. position lg cfg v minV maxV = Fin x \<and> 0 \<le> x \<and> x \<le> 1)"
  using clamp01_cases by (simp add: position_def normalise_def Let_def)

lemma normalise_number:
  assumes "number_isFinite (fsub (Fin x) (Fin a)) \<or> number_isFinite (fsub (Fin b) (Fin a))"
  shows "normalise (Fin x) (Fin a) (Fin b) \<noteq> NaN"
proof -
  define num where "num = fsub (Fin x) (Fin a)"
  define d where "d = fsub (Fin b) (Fin a)"
  define den where "den = (if d = Fin 0 \<or> d = NaN then Fin 1 else d)"
  have num: "num \<noteq> NaN" and d: "d \<noteq> NaN"
    by (simp_all add: num_def d_def fsub_def rnd_not_NaN)
  have den0: "den \<noteq> Fin 0" "den \<noteq> NaN" using d by (auto simp: den_def)
  have fin: "number_isFinite num \<or> number_isFinite den"
    using assms by (auto simp: num_def d_def den_def)
  have nn: "fdiv num den \<noteq> NaN"
    using num den0 fin by (cases num; cases den) (auto simp: rnd_not_NaN)
  have "normalise (Fin x) (Fin a) (Fin b) = clamp01 (fdiv num den)"
    unfolding normalise_def Let_def num_def den_def d_def by (rule refl)
  then show ?thesis
    using nn by (simp add: clamp01_NaN)
qed

text \<open>With the linear transform the engine's logarithm is not called.\<close>

lemma position_linear:
  "transform cfg \<noteq> ''log'' \<Longrightarrow> position lg cfg v minV maxV = position lg' cfg v minV maxV"
  by (simp add: position_def)

lemma valueToColor_linear:
  "transform cfg \<noteq> ''log'' \<Longrightarrow> valueToColor lg cfg v minV maxV = valueToColor lg' cfg v minV maxV"
  using position_linear[of cfg lg _ minV maxV lg'] by (simp add: valueToColor_def)

lemma styleForFeature_invalid:
  assumes "\<not> (src rs \<noteq> [] \<and> iso2 = src rs)"
    and "featureValue rs by_src iso2 = None
         \<or> (\<exists>x. featureValue rs by_src iso2 = Some x \<and> \<not> fle (Fin 0) x)"
  shows "\<exists>st. styleForFeature lg cfg rs by_src iso2 = Inr st \<and> fillColor st = missingColor cfg"
  using assms by (auto simp: styleForFeature_def Let_def)

lemma featureValue_example:
  "featureValue \<lparr>src = utf16 ''DE'', metric = ''p50_ms'', scaleMin = Num (Fin 0),
                  scaleMax = Num (Fin 100)\<rparr>
     (bySrc (buildIndex id [orphan_row, example_row])) (utf16 ''FR'') = Some (Fin (- 1))"
  by (simp add: featureValue_def buildIndex_example)
     (simp add: row_metric_def parseNum_def example_row_def)

text \<open>
  C6, as amended. For every min and max, \<^verbatim>\<open>valueToColor\<close> returns the configured missing
  color whenever its value is not a finite number (\<^verbatim>\<open>undefined\<close>, \<^verbatim>\<open>null\<close>, NaN or an
  infinity). For every finite number, negative ones and the sentinel \<open>-1\<close> included, it
  returns the color of the ramp at the normalised position of the number: when the
  position is a number it lies in \<open>[0, 1]\<close> and the color is \<^verbatim>\<open>#rrggbb\<close> with the red channel
  in \<open>[0, 255]\<close>, the green in \<open>[0, 176]\<close> and the blue in \<open>[0, 80]\<close>, between those of the two
  anchors; when the position is NaN the text is \<^verbatim>\<open>#NaNNaNNaN\<close>. With the linear
  transform and numbers for min and max the position is a number as soon as one of
  \<^verbatim>\<open>v - min\<close> and \<^verbatim>\<open>max - min\<close> is finite. The fill \<^verbatim>\<open>styleForFeature\<close> gives a feature
  other than the selected source is the missing color whenever the looked-up value is
  absent or negative.
\<close>

theorem valueToColor_missing:
  "(\<not> isFiniteNumber v \<longrightarrow> valueToColor lg cfg v minV maxV = Inr (missingColor cfg))
   \<and> (isFiniteNumber v \<longrightarrow>
        (position lg cfg (toNumber v) minV maxV = NaN
           \<and> valueToColor lg cfg v minV maxV = Inr ''#NaNNaNNaN'')
        \<or> (\<exists>x rc gc bc. position lg cfg (toNumber v) minV maxV = Fin x \<and> 0 \<le> x \<and> x \<le> 1
               \<and> rc \<le> 255 \<and> gc \<le> 176 \<and> bc \<le> 80
               \<and> valueToColor lg cfg v minV maxV
                   = Inr (''#'' @ hexByte rc @ hexByte gc @ hexByte bc)))
   \<and> (transform cfg \<noteq> ''log'' \<and> isFiniteNumber v \<and> isFiniteNumber minV \<and> isFiniteNumber maxV
        \<and> (number_isFinite (fsub (toNumber v) (toNumber minV))
             \<or> number_isFinite (fsub (toNumber maxV) (toNumber minV)))
        \<longrightarrow> position lg cfg (toNumber v) minV maxV \<noteq> NaN)
   \<and> (\<not> (src rs \<noteq> [] \<and> iso2 = src rs)
        \<and> (featureValue rs by_src iso2 = None
             \<or> (\<exists>x. featureValue rs by_src iso2 = Some x \<and> \<not> fle (Fin 0) x))
        \<longrightarrow> (\<exists>st. styleForFeature lg cfg rs by_src iso2 = Inr st
                   \<and> fillColor st = missingColor cfg))"
proof -
  have 1: "\<not> isFiniteNumber v \<longrightarrow> valueToColor lg cfg v minV maxV = Inr (missingColor cfg)"
    by (simp add: valueToColor_def)
  have 2: "(position lg cfg (toNumber v) minV maxV = NaN
           \<and> valueToColor lg cfg v minV maxV = Inr ''#NaNNaNNaN'')
        \<or> (\<exists>x rc gc bc. position lg cfg (toNumber v) minV maxV = Fin x \<and> 0 \<le> x \<and> x \<le> 1
               \<and> rc \<le> 255 \<and> gc \<le> 176 \<and> bc \<le> 80
               \<and> valueToColor lg cfg v minV maxV
                   = Inr (''#'' @ hexByte rc @ hexByte gc @ hexByte bc))"
    if fin: "isFiniteNumber v"
  proof -
    have vc: "valueToColor lg cfg v minV maxV = rampColor (position lg cfg (toNumber v) minV maxV)"
      using fin by (simp add: valueToColor_def)
    from position_cases[of lg cfg "toNumber v" minV maxV] show ?thesis
    proof
      assume "position lg cfg (toNumber v) minV maxV = NaN"
      with vc show ?thesis by (simp add: rampColor_NaN)
    next
      assume "\<exists>x. position lg cfg (toNumber v) minV maxV = Fin x \<and> 0 \<le> x \<and> x \<le> 1"
      then obtain x where x: "position lg cfg (toNumber v) minV maxV = Fin x" "0 \<le> x" "x \<le> 1"
        by blast
      from rampColor_number[OF x(2,3)] obtain rc gc bc
        where "rc \<le> 255" "gc \<le> 176" "bc \<le> 80"
          "rampColor (Fin x) = Inr (''#'' @ hexByte rc @ hexByte gc @ hexByte bc)" by blast
      with vc x show ?thesis by auto
    qed
  qed
  have 3: "position lg cfg (toNumber v) minV maxV \<noteq> NaN"
    if "transform cfg \<noteq> ''log''" "isFiniteNumber v" "isFiniteNumber minV" "isFiniteNumber maxV"
      "number_isFinite (fsub (toNumber v) (toNumber minV))
       \<or> number_isFinite (fsub (toNumber maxV) (toNumber minV))"
  proof -
    from that(2,3,4) obtain x a b where "v = Num (Fin x)" "minV = Num (Fin a)" "maxV = Num (Fin b)"
      by (cases v; cases minV; cases maxV; cases "toNumber v"; cases "toNumber minV";
          cases "toNumber maxV") auto
    with that(1,5) show ?thesis by (simp add: position_def normalise_number)
  qed
  from 1 2 3 styleForFeature_invalid[of rs iso2 by_src lg cfg] show ?thesis by blast
qed

theorem valueToColor_missing_witness:
  "\<not> isFiniteNumber (Num NaN)
   \<and> valueToColor log10_example scaleCfg0 (Num NaN) (Num (Fin 0)) (Num (Fin 100)) = Inr ''#dddddd''
   \<and> isFiniteNumber (Num (Fin 50)) \<and> isFiniteNumber (Num (Fin 0)) \<and> isFiniteNumber (Num (Fin 100))
   \<and> transform scaleCfg0 \<noteq> ''log''
   \<and> number_isFinite (fsub (Fin 50) (Fin 0))
   \<and> position log10_example scaleCfg0 (Fin 50) (Num (Fin 0)) (Num (Fin 100)) = Fin (1 / 2)
   \<and> valueToColor log10_example scaleCfg0 (Num (Fin 50)) (Num (Fin 0)) (Num (Fin 100))
       = Inr ''#805828''
   \<and> featureValue \<lparr>src = utf16 ''DE'', metric = ''p50_ms'', scaleMin = Num (Fin 0),
                     scaleMax = Num (Fin 100)\<rparr>
        (bySrc (buildIndex id [orphan_row, example_row])) (utf16 ''FR'') = Some (Fin (- 1))
   \<and> \<not> fle (Fin 0) (Fin (- 1))
   \<and> (\<exists>st. styleForFeature log10_example scaleCfg0
               \<lparr>src = utf16 ''DE'', metric = ''p50_ms'', scaleMin = Num (Fin 0),
                 scaleMax = Num (Fin 100)\<rparr>
               (bySrc (buildIndex id [orphan_row, example_row])) (utf16 ''FR'') = Inr st
             \<and> fillColor st = ''#dddddd'')"
proof -
  have pos: "position log10_example scaleCfg0 (Fin 50) (Num (Fin 0)) (Num (Fin 100)) = Fin (1 / 2)"
    by (simp add: position_def scaleCfg0_def normalise_half)
  have col: "valueToColor log10_example scaleCfg0 (Num (Fin 50)) (Num (Fin 0)) (Num (Fin 100))
             = Inr ''#805828''"
    by (simp add: valueToColor_def pos rampColor_half)
  have mc: "missingColor scaleCfg0 = ''#dddddd''" "transform scaleCfg0 \<noteq> ''log''"
    by (simp_all add: scaleCfg0_def)
  have sub: "number_isFinite (fsub (Fin 50) (Fin 0))" by (simp add: fsub_def rnd_numeral)
  have keys: "utf16 ''FR'' \<noteq> utf16 ''DE''" by (simp add: utf16_def)
  note inst = valueToColor_missing
                [of "Num NaN" log10_example scaleCfg0 "Num (Fin 0)" "Num (Fin 100)"
                    "\<lparr>src = utf16 ''DE'', metric = ''p50_ms'', scaleMin = Num (Fin 0),
                      scaleMax = Num (Fin 100)\<rparr>"
                    "utf16 ''FR''" "bySrc (buildIndex id [orphan_row, example_row])"]
  have missing: "valueToColor log10_example scaleCfg0 (Num NaN) (Num (Fin 0)) (Num (Fin 100))
                 = Inr ''#dddddd''"
    using conjunct1[OF inst] mc by simp
  have styled: "\<exists>st. styleForFeature log10_example scaleCfg0
               \<lparr>src = utf16 ''DE'', metric = ''p50_ms'', scaleMin = Num (Fin 0),
                 scaleMax = Num (Fin 100)\<rparr>
               (bySrc (buildIndex id [orphan_row, example_row])) (utf16 ''FR'') = Inr st
             \<and> fillColor st = ''#dddddd''"
    using conjunct2[OF conjunct2[OF conjunct2[OF inst]]] featureValue_example keys mc by simp
  note inst50 = valueToColor_missing
                [of "Num (Fin 50)" log10_example scaleCfg0 "Num (Fin 0)" "Num (Fin 100)"
                    "\<lparr>src = utf16 ''DE'', metric = ''p50_ms'', scaleMin = Num (Fin 0),
                      scaleMax = Num (Fin 100)\<rparr>"
                    "utf16 ''FR''" "bySrc (buildIndex id [orphan_row, example_row])"]
  have number: "position log10_example scaleCfg0 (Fin 50) (Num (Fin 0)) (Num (Fin 100)) \<noteq> NaN"
    using conjunct1[OF conjunct2[OF conjunct2[OF inst50]]] mc sub by simp
  have ramp: "\<exists>rc gc bc. rc \<le> 255 \<and> gc \<le> 176 \<and> bc \<le> 80
                \<and> valueToColor log10_example scaleCfg0 (Num (Fin 50)) (Num (Fin 0)) (Num (Fin 100))
                    = Inr (''#'' @ hexByte rc @ hexByte gc @ hexByte bc)"
    using conjunct1[OF conjunct2[OF inst50]] number by auto
  from missing styled pos col mc sub featureValue_example ramp show ?thesis by simp
qed

theorem valueToColor_missing_counterexample:
  "valueToColor log10_example scaleCfg0 (Num (Fin (- 1))) (Num (Fin 0)) (Num (Fin 1))
     = Inr ''#00b050''
   \<and> missingColor scaleCfg0 = ''#dddddd''
   \<and> ''#00b050'' \<noteq> ''#dddddd''"
  by (simp add: valueToColor_def position_def scaleCfg0_def normalise_sentinel rampColor_0)

section \<open>The refresh scheduler\<close>

lemma run_append: "run s (xs @ ys) = run (run s xs) ys"
  by (simp add: run_def)

lemma run_Cons: "run s (e # es) = run (step s e) es"
  by (simp add: run_def)

lemma run_Nil: "run s [] = s"
  by (simp add: run_def)

lemma run_single: "run s [e] = step s e"
  by (simp add: run_def)

lemma step_ok: "sched_ok s \<Longrightarrow> sched_ok (step s e)"
  by (cases e; cases "frameQueue s"; cases "hd (frameQueue s)")
     (auto simp: sched_ok_def split: list.splits callback.splits)

lemma run_ok: "sched_ok s \<Longrightarrow> sched_ok (run s es)"
  by (induction es arbitrary: s) (simp_all add: run_Nil run_Cons step_ok)

lemma idle_ok: "sched_ok (idle k)"
  by (simp add: sched_ok_def idle_def)

lemma step_layer: "geoLayer (step s e) = geoLayer s"
  by (cases e) (auto split: list.splits callback.splits)

lemma run_layer: "geoLayer (run s es) = geoLayer s"
  by (induction es arbitrary: s) (simp_all add: run_Nil run_Cons step_layer del: step.simps)

lemma step_signal_idle: "step (idle k) Signal = waiting Outer k"
  by (simp add: idle_def waiting_def)

lemma step_signal_waiting: "step (waiting cb k) Signal = waiting cb k"
  by (simp add: waiting_def)

lemma step_frame_outer: "step (waiting Outer k) Frame = waiting RunRefresh k"
  by (simp add: waiting_def)

lemma step_frame_run: "step (waiting RunRefresh k) Frame = in_pass False (Suc k)"
  by (simp add: waiting_def in_pass_def)

lemma step_signal_in_pass: "step (in_pass p k) Signal = in_pass True k"
  by (simp add: in_pass_def)

lemma step_end_quiet: "step (in_pass False k) PassEnd = idle k"
  by (simp add: in_pass_def idle_def)

lemma step_end_pending: "step (in_pass True k) PassEnd = waiting RunRefresh k"
  by (simp add: in_pass_def waiting_def)

lemma signals_waiting: "run (waiting cb k) (replicate n Signal) = waiting cb k"
  by (induction n) (simp_all add: run_Nil run_Cons step_signal_waiting del: step.simps)

lemma signals_idle: "1 \<le> n \<Longrightarrow> run (idle k) (replicate n Signal) = waiting Outer k"
  by (cases n) (simp_all add: run_Cons step_signal_idle signals_waiting del: step.simps)

lemma signals_in_pass_True: "run (in_pass True k) (replicate n Signal) = in_pass True k"
  by (induction n) (simp_all add: run_Nil run_Cons step_signal_in_pass del: step.simps)

lemma signals_in_pass: "1 \<le> n \<Longrightarrow> run (in_pass p k) (replicate n Signal) = in_pass True k"
  by (cases n) (simp_all add: run_Cons step_signal_in_pass signals_in_pass_True del: step.simps)

text \<open>The first pass of a burst begins at the second animation frame.\<close>

lemma first_pass_begun:
  assumes "1 \<le> a"
  shows "run (idle k) (replicate a Signal @ [Frame] @ replicate b Signal @ [Frame])
           = in_pass False (Suc k)"
proof -
  have "run (idle k) (replicate a Signal @ [Frame] @ replicate b Signal @ [Frame])
        = run (run (run (run (idle k) (replicate a Signal)) [Frame]) (replicate b Signal)) [Frame]"
    by (simp only: run_append)
  also have "\<dots> = in_pass False (Suc k)"
    by (simp only: signals_idle[OF assms] run_single step_frame_outer signals_waiting step_frame_run)
  finally show ?thesis .
qed

text \<open>A pass during which a signal arrives is followed by one more pass.\<close>

lemma during_pass_run:
  assumes "1 \<le> fst cd"
  shows "run (in_pass False j) (during_pass cd) = in_pass False (Suc j)"
proof -
  have "run (in_pass False j) (during_pass cd)
        = run (run (run (run (in_pass False j) (replicate (fst cd) Signal)) [PassEnd])
                 (replicate (snd cd) Signal)) [Frame]"
    by (simp only: during_pass_def run_append)
  also have "\<dots> = in_pass False (Suc j)"
    by (simp only: signals_in_pass[OF assms] run_single step_end_pending signals_waiting
        step_frame_run)
  finally show ?thesis .
qed

lemma during_passes_run:
  "\<forall>cd \<in> set cds. 1 \<le> fst cd \<Longrightarrow>
   run (in_pass False j) (concat (map during_pass cds)) = in_pass False (j + length cds)"
proof (induction cds arbitrary: j)
  case Nil
  then show ?case by (simp add: run_Nil)
next
  case (Cons cd cds)
  have "run (in_pass False j) (concat (map during_pass (cd # cds)))
        = run (run (in_pass False j) (during_pass cd)) (concat (map during_pass cds))"
    by (simp add: run_append)
  also have "\<dots> = run (in_pass False (Suc j)) (concat (map during_pass cds))"
    using Cons.prems by (simp add: during_pass_run)
  also have "\<dots> = in_pass False (Suc j + length cds)"
    using Cons.prems by (intro Cons.IH) simp
  finally show ?case by simp
qed

lemma burst_run:
  assumes "1 \<le> a" and "\<forall>cd \<in> set cds. 1 \<le> fst cd"
  shows "run (idle k) (burst a b cds) = idle (Suc k + length cds)"
proof -
  have "run (idle k) (burst a b cds)
        = run (run (run (idle k) (replicate a Signal @ [Frame] @ replicate b Signal @ [Frame]))
                 (concat (map during_pass cds))) [PassEnd]"
    unfolding burst_def by (simp only: run_append append_assoc[symmetric])
  also have "\<dots> = idle (Suc k + length cds)"
    by (simp only: first_pass_begun[OF assms(1)] during_passes_run[OF assms(2)] run_single
        step_end_quiet)
  finally show ?thesis .
qed

text \<open>No pass starts without a signal, and a signal starts at most one pass.\<close>

lemma step_owed:
  assumes "sched_ok s"
  shows "passes (step s e) + owed (step s e)
           \<le> passes s + owed s + (if e = Signal then 1 else 0)"
proof (cases e)
  case Signal
  then show ?thesis by (auto simp: owed_def)
next
  case Frame
  show ?thesis
  proof (cases "frameQueue s")
    case Nil
    with Frame show ?thesis by (auto simp: owed_def)
  next
    case (Cons cb cbs)
    with assms have "cbs = []" by (simp add: sched_ok_def)
    with Cons Frame show ?thesis by (cases cb) (auto simp: owed_def)
  qed
next
  case PassEnd
  with assms show ?thesis by (auto simp: owed_def sched_ok_def)
next
  case PassThrow
  with assms show ?thesis by (auto simp: owed_def sched_ok_def)
qed

lemma run_owed:
  "sched_ok s \<Longrightarrow>
   passes (run s es) + owed (run s es) \<le> passes s + owed s + count_list es Signal"
proof (induction es arbitrary: s)
  case Nil
  then show ?case by (simp add: run_Nil)
next
  case (Cons e es)
  have "passes (run (step s e) es) + owed (run (step s e) es)
        \<le> passes (step s e) + owed (step s e) + count_list es Signal"
    by (rule Cons.IH) (rule step_ok[OF Cons.prems])
  moreover note step_owed[OF Cons.prems, of e]
  ultimately show ?case by (cases "e = Signal") (simp_all add: run_Cons del: step.simps)
qed

lemma run_passes_bound: "passes (run (idle k) es) \<le> k + count_list es Signal"
  using run_owed[OF idle_ok, of k es] by (simp add: idle_def owed_def)

lemma step_idle_other: "e \<noteq> Signal \<Longrightarrow> step (idle k) e = idle k"
  by (cases e) (simp_all add: idle_def)

lemma run_no_signal: "count_list es Signal = 0 \<Longrightarrow> run (idle k) es = idle k"
  by (induction es)
     (simp_all add: run_Nil run_Cons step_idle_other del: step.simps split: if_splits)

text \<open>
  A signal is served: whatever the state, the signal, the end of the pass under way,
  two animation frames and the end of the pass then under way leave the scheduler at
  rest with one pass more.
\<close>

lemma signal_served:
  assumes "geoLayer s" "sched_ok s"
  shows "run s [Signal, PassEnd, Frame, Frame, PassEnd] = idle (Suc (passes s))"
proof (cases "running s")
  case True
  with assms show ?thesis by (auto simp: run_def idle_def sched_ok_def)
next
  case False
  show ?thesis
  proof (cases "frameQueue s")
    case Nil
    with False assms show ?thesis by (auto simp: run_def idle_def sched_ok_def)
  next
    case (Cons cb cbs)
    with assms have "cbs = []" by (simp add: sched_ok_def)
    with Cons False assms show ?thesis
      by (cases cb) (auto simp: run_def idle_def sched_ok_def)
  qed
qed

lemma run_signal_served:
  "run (idle k) (es @ [Signal, PassEnd, Frame, Frame, PassEnd])
     = idle (Suc (passes (run (idle k) es)))"
proof -
  have "geoLayer (run (idle k) es)" by (simp add: run_layer idle_def)
  moreover have "sched_ok (run (idle k) es)" by (rule run_ok[OF idle_ok])
  ultimately show ?thesis by (simp only: run_append signal_served)
qed

text \<open>
  C9, as amended. From rest, a burst of refresh signals of which the first \<open>a \<ge> 1\<close> arrive
  before the first animation frame and \<open>b\<close> more before the second, so all before the
  first pass starts, leads to exactly one pass. Each pass during which at least one
  signal arrives is followed by one more pass: a burst with signals during the first
  pass and none during the second leads to exactly two passes, and a burst with signals
  during each of \<open>m\<close> successive passes leads to \<open>m + 1\<close>, so there is no bound of two. After
  the burst the scheduler is at rest. For every sequence of events, the passes started
  never exceed the signals received, without a signal nothing changes, and no signal is
  lost: a signal, the end of the pass under way, two animation frames and the end of
  the pass then under way leave the scheduler at rest with exactly one pass more.
\<close>

theorem refresh_coalescing:
  "(1 \<le> a \<longrightarrow> run (idle k) (replicate a Signal @ [Frame] @ replicate b Signal @ [Frame])
                  = in_pass False (Suc k))
   \<and> (1 \<le> a \<longrightarrow> run (idle k) (burst a b []) = idle (Suc k))
   \<and> (1 \<le> a \<and> 1 \<le> c \<longrightarrow> run (idle k) (burst a b [(c, d)]) = idle (Suc (Suc k)))
   \<and> (1 \<le> a \<and> (\<forall>cd \<in> set cds. 1 \<le> fst cd)
        \<longrightarrow> run (idle k) (burst a b cds) = idle (Suc k + length cds))
   \<and> passes (run (idle k) es) \<le> k + count_list es Signal
   \<and> (count_list es Signal = 0 \<longrightarrow> run (idle k) es = idle k)
   \<and> run (idle k) (es @ [Signal, PassEnd, Frame, Frame, PassEnd])
       = idle (Suc (passes (run (idle k) es)))"
proof -
  have one: "run (idle k) (burst a b []) = idle (Suc k)" if "1 \<le> a"
    using burst_run[OF that, of "[]" k b] by simp
  have two: "run (idle k) (burst a b [(c, d)]) = idle (Suc (Suc k))" if "1 \<le> a" "1 \<le> c"
    using burst_run[OF that(1), of "[(c, d)]" k b] that(2) by simp
  from one two first_pass_begun[of a k b] burst_run[of a cds k b] run_passes_bound[of k es]
    run_no_signal[of es k] run_signal_served[of k es]
  show ?thesis by blast
qed

theorem refresh_coalescing_witness:
  "(1::nat) \<le> 3
   \<and> run (idle 0) [Signal, Signal, Signal, Frame, Signal, Signal, Frame] = in_pass False 1
   \<and> burst 3 2 [] = [Signal, Signal, Signal, Frame, Signal, Signal, Frame, PassEnd]
   \<and> run (idle 0) [Signal, Signal, Signal, Frame, Signal, Signal, Frame, PassEnd] = idle 1
   \<and> (1::nat) \<le> 2
   \<and> burst 3 2 [(2, 1)]
       = [Signal, Signal, Signal, Frame, Signal, Signal, Frame, Signal, Signal, PassEnd,
          Signal, Frame, PassEnd]
   \<and> run (idle 0) [Signal, Signal, Signal, Frame, Signal, Signal, Frame, Signal, Signal, PassEnd,
                     Signal, Frame, PassEnd] = idle 2
   \<and> (1::nat) \<le> fst (2, 1::nat) \<and> (1::nat) \<le> fst (1, 0::nat)
   \<and> burst 3 2 [(2, 1), (1, 0)]
       = [Signal, Signal, Signal, Frame, Signal, Signal, Frame, Signal, Signal, PassEnd,
          Signal, Frame, Signal, PassEnd, Frame, PassEnd]
   \<and> run (idle 0) [Signal, Signal, Signal, Frame, Signal, Signal, Frame, Signal, Signal, PassEnd,
                     Signal, Frame, Signal, PassEnd, Frame, PassEnd] = idle 3
   \<and> passes (run (idle 0) [Frame, PassEnd, Frame]) \<le> 0 + count_list [Frame, PassEnd, Frame] Signal
   \<and> count_list [Frame, PassEnd, Frame] Signal = 0
   \<and> run (idle 0) [Frame, PassEnd, Frame] = idle 0
   \<and> run (idle 0) [Frame, PassEnd, Frame, Signal, PassEnd, Frame, Frame, PassEnd] = idle 1"
proof -
  have b2: "burst 3 2 [(2, 1), (1, 0)]
       = [Signal, Signal, Signal, Frame, Signal, Signal, Frame, Signal, Signal, PassEnd,
          Signal, Frame, Signal, PassEnd, Frame, PassEnd]"
    by (simp add: burst_def during_pass_def numeral_2_eq_2 numeral_3_eq_3)
  have h: "\<forall>cd \<in> set [(2, 1), (1, 0::nat)]. (1::nat) \<le> fst cd" by simp
  have p6: "run (idle 0) (burst 3 2 [(2, 1), (1, 0)]) = idle 3"
    using conjunct1[OF conjunct2[OF conjunct2[OF conjunct2[OF
            refresh_coalescing [of 3 0 2 2 1 "[(2, 1), (1, 0)]" "[]"]]]]] h
    by (simp add: numeral_3_eq_3)
  have b0: "burst 3 2 [] = [Signal, Signal, Signal, Frame, Signal, Signal, Frame, PassEnd]"
    by (simp add: burst_def numeral_2_eq_2 numeral_3_eq_3)
  have b1: "burst 3 2 [(2, 1)]
       = [Signal, Signal, Signal, Frame, Signal, Signal, Frame, Signal, Signal, PassEnd,
          Signal, Frame, PassEnd]"
    by (simp add: burst_def during_pass_def numeral_2_eq_2 numeral_3_eq_3)
  have c0: "count_list [Frame, PassEnd, Frame] Signal = 0" by simp
  note inst = refresh_coalescing [of 3 0 2 2 1 "[(2, 1)]" "[Frame, PassEnd, Frame]"]
  have p1: "run (idle 0) [Signal, Signal, Signal, Frame, Signal, Signal, Frame] = in_pass False 1"
    using conjunct1[OF inst] by (simp add: numeral_2_eq_2 numeral_3_eq_3)
  have p2: "run (idle 0) (burst 3 2 []) = idle 1"
    using conjunct1[OF conjunct2[OF inst]] by simp
  have p3: "run (idle 0) (burst 3 2 [(2, 1)]) = idle 2"
    using conjunct1[OF conjunct2[OF conjunct2[OF inst]]] by (simp add: numeral_2_eq_2)
  have rest: "(count_list [Frame, PassEnd, Frame] Signal = 0
                 \<longrightarrow> run (idle 0) [Frame, PassEnd, Frame] = idle 0)
              \<and> run (idle 0) ([Frame, PassEnd, Frame] @ [Signal, PassEnd, Frame, Frame, PassEnd])
                  = idle (Suc (passes (run (idle 0) [Frame, PassEnd, Frame])))"
    using conjunct2[OF conjunct2[OF conjunct2[OF conjunct2[OF conjunct2[OF inst]]]]] .
  have p4: "run (idle 0) [Frame, PassEnd, Frame] = idle 0"
    using conjunct1[OF rest] c0 by blast
  have p5: "run (idle 0) [Frame, PassEnd, Frame, Signal, PassEnd, Frame, Frame, PassEnd] = idle 1"
    using conjunct2[OF rest] unfolding p4 by (simp add: idle_def)
  have p7: "passes (run (idle 0) [Frame, PassEnd, Frame]) \<le> 0 + count_list [Frame, PassEnd, Frame] Signal"
    using conjunct1[OF conjunct2[OF conjunct2[OF conjunct2[OF conjunct2[OF inst]]]]] .
  from p1 p2 p3 p4 p5 b0 b1 c0 show ?thesis
    unfolding b2[symmetric] using p6 p7 by simp
qed

theorem refresh_coalescing_counterexample:
  "run (idle 0) [Signal, Frame, Frame, Signal, PassEnd, Frame, Signal, PassEnd, Frame, PassEnd]
     = idle 3
   \<and> \<not> passes (idle 3) \<le> 2"
  by (simp add: run_def idle_def)

end
